theory Spec2Isabelle
  imports Main "HOL-Library.AList"
begin

section \<open>JavaScript values\<close>

text \<open>
  The server is untyped JavaScript. The values it builds, stores and sends are modelled by
  one datatype. Strings are lists of 8-bit characters; a number is kept as the text of its
  literal (the program never computes with one, it only passes parsed cache contents on).
  An object is an association list in key order; \<open>JUndefined\<close> is the value of a property
  that was never given one.
\<close>

datatype jsval =
    JUndefined
  | JNull
  | JBool bool
  | JNum string
  | JStr string
  | JArr "jsval list"
  | JObj "(string \<times> jsval) list"

text \<open>A thrown value; the handlers only ever read its \<open>message\<close>.\<close>

datatype js_error = Error string

fun message :: "js_error \<Rightarrow> string" where
  "message (Error m) = m"

text \<open>Reading a property: a missing key, or a value that is no object, gives \<open>undefined\<close>.\<close>

fun get_prop :: "jsval \<Rightarrow> string \<Rightarrow> jsval" where
  "get_prop (JObj kvs) k = (case map_of kvs k of None \<Rightarrow> JUndefined | Some v \<Rightarrow> v)"
| "get_prop _ k = JUndefined"

subsection \<open>\<open>JSON.stringify\<close>\<close>

definition hex_digit :: "nat \<Rightarrow> char" where
  "hex_digit n = ''0123456789abcdef'' ! (n mod 16)"

text \<open>
  QuoteJSONString: the quote and the backslash get a backslash, the control characters
  their short escape or \<open>\u00XX\<close> in lower-case hexadecimal, every other character stands
  for itself.
\<close>

definition escape_char :: "char \<Rightarrow> string" where
  "escape_char c =
     (if c = CHR 0x08 then [CHR 0x5C, CHR ''b'']
      else if c = CHR 0x09 then [CHR 0x5C, CHR ''t'']
      else if c = CHR 0x0A then [CHR 0x5C, CHR ''n'']
      else if c = CHR 0x0C then [CHR 0x5C, CHR ''f'']
      else if c = CHR 0x0D then [CHR 0x5C, CHR ''r'']
      else if c = CHR 0x22 then [CHR 0x5C, CHR 0x22]
      else if c = CHR 0x5C then [CHR 0x5C, CHR 0x5C]
      else if (of_char c :: nat) < 32
        then [CHR 0x5C, CHR ''u'', CHR ''0'', CHR ''0'',
              hex_digit (of_char c div 16), hex_digit (of_char c mod 16)]
      else [c])"

definition quote :: "string \<Rightarrow> string" where
  "quote s = CHR 0x22 # concat (map escape_char s) @ [CHR 0x22]"

fun join :: "string \<Rightarrow> string list \<Rightarrow> string" where
  "join sep [] = []"
| "join sep [x] = x"
| "join sep (x # y # ys) = x @ sep @ join sep (y # ys)"

text \<open>
  SerializeJSONProperty. In an array \<open>undefined\<close> is written \<open>null\<close>; in an object a
  property whose value is \<open>undefined\<close> is left out. (At top level \<open>JSON.stringify(undefined)\<close>
  is \<open>undefined\<close>, not a string; the server only ever serialises an array.)
\<close>

fun JSON_stringify :: "jsval \<Rightarrow> string" where
  "JSON_stringify JUndefined = ''null''"
| "JSON_stringify JNull = ''null''"
| "JSON_stringify (JBool b) = (if b then ''true'' else ''false'')"
| "JSON_stringify (JNum lit) = lit"
| "JSON_stringify (JStr s) = quote s"
| "JSON_stringify (JArr xs) = ''['' @ join '','' (map JSON_stringify xs) @ '']''"
| "JSON_stringify (JObj kvs) =
     ''{'' @ join '',''
        (map (\<lambda>(k, v). quote k @ '':'' @ JSON_stringify v)
           (filter (\<lambda>(k, v). v \<noteq> JUndefined) kvs)) @ ''}''"

subsection \<open>\<open>JSON.parse\<close>\<close>

definition is_ws :: "char \<Rightarrow> bool" where
  "is_ws c = (c = CHR 0x20 \<or> c = CHR 0x09 \<or> c = CHR 0x0A \<or> c = CHR 0x0D)"

fun skip_ws :: "string \<Rightarrow> string" where
  "skip_ws [] = []"
| "skip_ws (c # cs) = (if is_ws c then skip_ws cs else c # cs)"

definition is_digit :: "char \<Rightarrow> bool" where
  "is_digit c = (48 \<le> (of_char c :: nat) \<and> (of_char c :: nat) \<le> 57)"

definition hex_value :: "char \<Rightarrow> nat option" where
  "hex_value c =
     (if is_digit c then Some (of_char c - 48)
      else if 97 \<le> (of_char c :: nat) \<and> (of_char c :: nat) \<le> 102 then Some (of_char c - 87)
      else if 65 \<le> (of_char c :: nat) \<and> (of_char c :: nat) \<le> 70 then Some (of_char c - 55)
      else None)"

definition hex4 :: "char \<Rightarrow> char \<Rightarrow> char \<Rightarrow> char \<Rightarrow> nat option" where
  "hex4 a b c d =
     (case (hex_value a, hex_value b, hex_value c, hex_value d) of
        (Some h3, Some h2, Some h1, Some h0) \<Rightarrow> Some (((h3 * 16 + h2) * 16 + h1) * 16 + h0)
      | _ \<Rightarrow> None)"

definition unescape :: "char \<Rightarrow> char option" where
  "unescape e =
     (if e = CHR 0x22 then Some (CHR 0x22)
      else if e = CHR 0x5C then Some (CHR 0x5C)
      else if e = CHR ''/'' then Some (CHR ''/'')
      else if e = CHR ''b'' then Some (CHR 0x08)
      else if e = CHR ''f'' then Some (CHR 0x0C)
      else if e = CHR ''n'' then Some (CHR 0x0A)
      else if e = CHR ''r'' then Some (CHR 0x0D)
      else if e = CHR ''t'' then Some (CHR 0x09)
      else None)"

definition cons_fst :: "'a \<Rightarrow> ('a list \<times> 'b) option \<Rightarrow> ('a list \<times> 'b) option" where
  "cons_fst x r = (case r of None \<Rightarrow> None | Some (xs, rest) \<Rightarrow> Some (x # xs, rest))"

text \<open>
  The characters of a string literal after its opening quote, up to the closing one; the
  result is the decoded string and the text that follows. A raw control character, an
  unknown escape and an unterminated literal are syntax errors. A \<open>\uXXXX\<close> above
  \<open>00FF\<close> names a character that the 8-bit strings of this model do not have: the model
  gives no value for it.
\<close>

fun parse_chars :: "string \<Rightarrow> (string \<times> string) option" where
  "parse_chars [] = None"
| "parse_chars (c # cs) =
     (if c = CHR 0x22 then Some ([], cs)
      else if c = CHR 0x5C then
        (case cs of
           [] \<Rightarrow> None
         | e # r \<Rightarrow>
             if e = CHR ''u'' then
               (case r of
                  h3 # h2 # h1 # h0 # r' \<Rightarrow>
                    (case hex4 h3 h2 h1 h0 of
                       None \<Rightarrow> None
                     | Some n \<Rightarrow> if n < 256 then cons_fst (char_of n) (parse_chars r') else None)
                | _ \<Rightarrow> None)
             else
               (case unescape e of
                  None \<Rightarrow> None
                | Some x \<Rightarrow> cons_fst x (parse_chars r)))
      else if (of_char c :: nat) < 32 then None
      else cons_fst c (parse_chars cs))"

text \<open>
  A number literal: an optional minus, an integer part without a leading zero, an optional
  fraction and an optional exponent. The result is the literal's text and what follows it.
\<close>

definition parse_int_part :: "string \<Rightarrow> (string \<times> string) option" where
  "parse_int_part s =
     (case s of
        [] \<Rightarrow> None
      | c # cs \<Rightarrow>
          if c = CHR ''0'' then Some ([c], cs)
          else if is_digit c then Some (takeWhile is_digit s, dropWhile is_digit s)
          else None)"

definition parse_frac :: "string \<Rightarrow> (string \<times> string) option" where
  "parse_frac s =
     (case s of
        [] \<Rightarrow> Some ([], s)
      | c # cs \<Rightarrow>
          if c = CHR ''.'' then
            (if takeWhile is_digit cs = [] then None
             else Some (c # takeWhile is_digit cs, dropWhile is_digit cs))
          else Some ([], s))"

definition parse_sign :: "string \<Rightarrow> string \<times> string" where
  "parse_sign s =
     (case s of
        [] \<Rightarrow> ([], s)
      | d # ds \<Rightarrow> if d = CHR ''+'' \<or> d = CHR ''-'' then ([d], ds) else ([], s))"

definition parse_exp :: "string \<Rightarrow> (string \<times> string) option" where
  "parse_exp s =
     (case s of
        [] \<Rightarrow> Some ([], s)
      | c # cs \<Rightarrow>
          if c = CHR ''e'' \<or> c = CHR ''E'' then
            (case parse_sign cs of
               (sg, r) \<Rightarrow>
                 if takeWhile is_digit r = [] then None
                 else Some (c # sg @ takeWhile is_digit r, dropWhile is_digit r))
          else Some ([], s))"

definition parse_number :: "string \<Rightarrow> (string \<times> string) option" where
  "parse_number s =
     (case (case s of [] \<Rightarrow> ([], s) | c # cs \<Rightarrow> if c = CHR ''-'' then ([c], cs) else ([], s)) of
        (sg, r0) \<Rightarrow>
          (case parse_int_part r0 of
             None \<Rightarrow> None
           | Some (i, r1) \<Rightarrow>
               (case parse_frac r1 of
                  None \<Rightarrow> None
                | Some (f, r2) \<Rightarrow>
                    (case parse_exp r2 of
                       None \<Rightarrow> None
                     | Some (x, r3) \<Rightarrow> Some (sg @ i @ f @ x, r3)))))"

text \<open>
  The members of an object literal in the order read; a key given twice keeps its first place and
  its last value, as the properties of the object that \<open>JSON.parse\<close> builds do.
\<close>

definition object_of :: "(string \<times> jsval) list \<Rightarrow> (string \<times> jsval) list" where
  "object_of ms = foldl (\<lambda>al (k, v). AList.update k v al) [] ms"

definition map_fst :: "('a \<Rightarrow> 'c) \<Rightarrow> ('a \<times> 'b) option \<Rightarrow> ('c \<times> 'b) option" where
  "map_fst f r = (case r of None \<Rightarrow> None | Some (x, rest) \<Rightarrow> Some (f x, rest))"

text \<open>
  The recursive descent over values, the elements of an array (after its bracket) and the
  members of an object (after its brace). The first argument bounds the number of nested
  and chained calls; every call reads at least one character first, so the length of the
  text is a bound that is never reached (lemma \<open>JSON_parse_any_fuel\<close>).
\<close>

fun parse_value :: "nat \<Rightarrow> string \<Rightarrow> (jsval \<times> string) option"
  and parse_elements :: "nat \<Rightarrow> string \<Rightarrow> (jsval list \<times> string) option"
  and parse_members :: "nat \<Rightarrow> string \<Rightarrow> ((string \<times> jsval) list \<times> string) option"
where
  "parse_value 0 s = None"
| "parse_value (Suc n) s =
     (case skip_ws s of
        [] \<Rightarrow> None
      | c # cs \<Rightarrow>
          if c = CHR 0x22 then map_fst JStr (parse_chars cs)
          else if c = CHR ''['' then
            (case skip_ws cs of
               [] \<Rightarrow> None
             | d # ds \<Rightarrow> if d = CHR '']'' then Some (JArr [], ds) else map_fst JArr (parse_elements n cs))
          else if c = CHR ''{'' then
            (case skip_ws cs of
               [] \<Rightarrow> None
             | d # ds \<Rightarrow>
                 if d = CHR ''}'' then Some (JObj [], ds)
                 else map_fst (\<lambda>ms. JObj (object_of ms)) (parse_members n cs))
          else if take 4 (c # cs) = ''null'' then Some (JNull, drop 4 (c # cs))
          else if take 4 (c # cs) = ''true'' then Some (JBool True, drop 4 (c # cs))
          else if take 5 (c # cs) = ''false'' then Some (JBool False, drop 5 (c # cs))
          else if c = CHR ''-'' \<or> is_digit c then map_fst JNum (parse_number (c # cs))
          else None)"
| "parse_elements 0 s = None"
| "parse_elements (Suc n) s =
     (case parse_value n s of
        None \<Rightarrow> None
      | Some (v, r) \<Rightarrow>
          (case skip_ws r of
             [] \<Rightarrow> None
           | d # ds \<Rightarrow>
               if d = CHR '','' then cons_fst v (parse_elements n ds)
               else if d = CHR '']'' then Some ([v], ds)
               else None))"
| "parse_members 0 s = None"
| "parse_members (Suc n) s =
     (case skip_ws s of
        [] \<Rightarrow> None
      | q # cs \<Rightarrow>
          if q = CHR 0x22 then
            (case parse_chars cs of
               None \<Rightarrow> None
             | Some (k, r) \<Rightarrow>
                 (case skip_ws r of
                    [] \<Rightarrow> None
                  | colon # r1 \<Rightarrow>
                      if colon = CHR '':'' then
                        (case parse_value n r1 of
                           None \<Rightarrow> None
                         | Some (v, r2) \<Rightarrow>
                             (case skip_ws r2 of
                                [] \<Rightarrow> None
                              | d # ds \<Rightarrow>
                                  if d = CHR '','' then cons_fst (k, v) (parse_members n ds)
                                  else if d = CHR ''}'' then Some ([(k, v)], ds)
                                  else None))
                      else None))
          else None)"

text \<open>\<open>JSON.parse\<close>: one value, then nothing but white space. \<open>None\<close> is the SyntaxError.\<close>

definition JSON_parse :: "string \<Rightarrow> jsval option" where
  "JSON_parse s =
     (case parse_value (Suc (length s)) s of
        None \<Rightarrow> None
      | Some (v, rest) \<Rightarrow> if skip_ws rest = [] then Some v else None)"

section \<open>The collaborators: the media host and the cache store\<close>

text \<open>
  What the Cloudinary search answers. The fields the server reads are strings when they
  are there; a field that is missing reads as \<open>undefined\<close> (\<open>None\<close>), and so does a
  \<open>resources\<close> that is no array.
\<close>

record resource =
  public_id :: "string option"
  secure_url :: "string option"

record search_result =
  resources :: "resource list option"

record search_query =
  expression :: string
  max_results :: nat

record url_options =
  crop :: string
  width :: nat
  height :: nat
  quality :: string

text \<open>
  The surroundings of one request: the answer of the media host to a search (\<open>Inl\<close> when
  the call rejects), the URL builder of the SDK (configured, so that it returns a URL for
  every identifier), for each Redis command the error it rejects with (\<open>None\<close>: the
  command is carried out; a command that rejects leaves the store as it was), the text
  of the engine's SyntaxError for an input that \<open>JSON.parse\<close> refuses, and whether
  the callback of \<open>redisClient.connect()\<close> (lines 40 to 42) runs while the handler awaits
  the fetcher: the server listens without waiting for the connection.
\<close>

record env =
  search_execute :: "search_query \<Rightarrow> js_error + search_result"
  cloudinary_url :: "string \<Rightarrow> url_options \<Rightarrow> string"
  get_fault :: "string option"
  setEx_fault :: "string option"
  del_fault :: "string option"
  syntax_error_message :: "string \<Rightarrow> string"
  connects_meanwhile :: bool

text \<open>
  The state the handlers share: the flag \<open>redisConnected\<close> and, behind the client, the
  store: for each key its value and the time at which it expires. \<open>now\<close> is the clock
  in seconds.
\<close>

record world =
  redisConnected :: bool
  store :: "string \<rightharpoonup> (string \<times> nat)"
  now :: nat

text \<open>
  The flag starts unset (line 39); the callback of the connection sets it (lines 40 to 42),
  and nothing ever unsets it.
\<close>

definition on_connect :: "world \<Rightarrow> world" where
  "on_connect w = w\<lparr>redisConnected := True\<rparr>"

text \<open>The state that the handler finds when it is back from the fetcher.\<close>

definition back_from_fetch :: "env \<Rightarrow> world \<Rightarrow> world" where
  "back_from_fetch e w = (if connects_meanwhile e then on_connect w else w)"

text \<open>What a handler does to its collaborators, in order.\<close>

datatype effect =
    RedisGet string
  | RedisSetEx string nat string
  | RedisDel string
  | RedisQuit
  | CloudinarySearch search_query

text \<open>GET: the value of a key that is there and has not expired, else \<open>null\<close>.\<close>

definition redis_get :: "env \<Rightarrow> world \<Rightarrow> string \<Rightarrow> js_error + string option" where
  "redis_get e w k =
     (case get_fault e of
        Some m \<Rightarrow> Inl (Error m)
      | None \<Rightarrow>
          (case store w k of
             None \<Rightarrow> Inr None
           | Some (v, expires) \<Rightarrow> if now w < expires then Inr (Some v) else Inr None))"

text \<open>SETEX: the value replaces what the key held and expires \<open>ttl\<close> seconds from now.\<close>

definition redis_setEx :: "env \<Rightarrow> world \<Rightarrow> string \<Rightarrow> nat \<Rightarrow> string \<Rightarrow> js_error + world" where
  "redis_setEx e w k ttl v =
     (case setEx_fault e of
        Some m \<Rightarrow> Inl (Error m)
      | None \<Rightarrow> Inr (w\<lparr>store := (store w)(k \<mapsto> (v, now w + ttl))\<rparr>))"

definition redis_del :: "env \<Rightarrow> world \<Rightarrow> string \<Rightarrow> js_error + world" where
  "redis_del e w k =
     (case del_fault e of
        Some m \<Rightarrow> Inl (Error m)
      | None \<Rightarrow> Inr (w\<lparr>store := (store w)(k := None)\<rparr>))"

section \<open>The server\<close>

definition IMAGES_CACHE_KEY :: string where
  "IMAGES_CACHE_KEY = ''cloudinary:images:all''"

definition CACHE_TTL :: nat where
  "CACHE_TTL = 3600"

subsection \<open>\<open>fetchImagesFromCloudinary\<close>\<close>

text \<open>\<open>String.prototype.split\<close> with a one-character separator: never an empty array.\<close>

fun split_str :: "char \<Rightarrow> string \<Rightarrow> string list" where
  "split_str sep [] = [[]]"
| "split_str sep (c # cs) =
     (if c = sep then [] # split_str sep cs
      else (case split_str sep cs of
              [] \<Rightarrow> [[c]]
            | x # xs \<Rightarrow> (c # x) # xs))"

text \<open>\<open>Array.prototype.pop\<close>, as a value: the last element, \<open>undefined\<close> for an empty array.\<close>

definition pop :: "string list \<Rightarrow> jsval" where
  "pop xs = (if xs = [] then JUndefined else JStr (last xs))"

text \<open>\<open>Array.prototype.map\<close> with a callback that may throw: the first throw ends it.\<close>

fun map_throw :: "('a \<Rightarrow> js_error + 'b) \<Rightarrow> 'a list \<Rightarrow> js_error + 'b list" where
  "map_throw f [] = Inr []"
| "map_throw f (x # xs) =
     (case f x of
        Inl err \<Rightarrow> Inl err
      | Inr y \<Rightarrow> (case map_throw f xs of Inl err \<Rightarrow> Inl err | Inr ys \<Rightarrow> Inr (y # ys)))"

text \<open>
  The arrow function of the \<open>map\<close>: the object literal with its four properties. With no
  \<open>public_id\<close>, \<open>resource.public_id.split\<close> is a TypeError (whatever the URL builder made
  of \<open>undefined\<close> before).
\<close>

definition describe :: "env \<Rightarrow> resource \<Rightarrow> js_error + jsval" where
  "describe e r =
     (case public_id r of
        None \<Rightarrow> Inl (Error ''Cannot read properties of undefined (reading split)'')
      | Some pid \<Rightarrow>
          Inr (JObj
            [(''public_id'', JStr pid),
             (''url'', JStr (cloudinary_url e pid
                \<lparr>crop = ''fill'', width = 400, height = 400, quality = ''auto''\<rparr>)),
             (''original_url'', (case secure_url r of None \<Rightarrow> JUndefined | Some u \<Rightarrow> JStr u)),
             (''title'', pop (split_str CHR ''/'' pid))]))"

definition the_search :: search_query where
  "the_search = \<lparr>expression = ''resource_type:image'', max_results = 20\<rparr>"

text \<open>The body of the \<open>try\<close>.\<close>

definition fetch_try :: "env \<Rightarrow> js_error + jsval list" where
  "fetch_try e =
     (case search_execute e the_search of
        Inl err \<Rightarrow> Inl err
      | Inr result \<Rightarrow>
          (case resources result of
             None \<Rightarrow> Inl (Error ''Cannot read properties of undefined (reading map)'')
           | Some rs \<Rightarrow> map_throw (describe e) rs))"

text \<open>
  The function: whatever was thrown in the \<open>try\<close> is logged and replaced by one fixed
  error. It calls the media host once.
\<close>

definition fetchImagesFromCloudinary :: "env \<Rightarrow> (js_error + jsval list) \<times> effect list" where
  "fetchImagesFromCloudinary e =
     ((case fetch_try e of
         Inl err \<Rightarrow> Inl (Error ''Failed to fetch images from Cloudinary'')
       | Inr images \<Rightarrow> Inr images),
      [CloudinarySearch the_search])"

subsection \<open>The responses\<close>

text \<open>The four object literals the handlers pass to \<open>res.json\<close>, field by field.\<close>

datatype body =
    ImagesBody bool bool jsval
  | ErrorBody bool string
  | HealthBody string string
  | MessageBody bool string

record response =
  status :: nat
  body :: body

definition res_json :: "body \<Rightarrow> response" where
  "res_json b = \<lparr>status = 200, body = b\<rparr>"

definition res_status_json :: "nat \<Rightarrow> body \<Rightarrow> response" where
  "res_status_json code b = \<lparr>status = code, body = b\<rparr>"

subsection \<open>\<open>GET /api/images\<close>\<close>

text \<open>
  Lines 98 to 115, reached when the cache was not asked or had nothing: fetch, store if
  connected, answer. \<open>sofar\<close> is what the handler did before. Every throw lands in the
  handler's \<open>catch\<close>, which answers 500 with the error's message.

  The flag is a global that the handler reads a second time here (line 102), after the
  \<open>await\<close> of the fetcher, and the callback of the connection may have set it in between:
  the second reading is of the state \<open>back_from_fetch\<close>. When the fetcher throws, the
  handler does not come back to the state at all and leaves it as it found it; the callback
  is then a step of its own, \<open>on_connect\<close>, before or after the request.
\<close>

definition fetch_and_cache :: "env \<Rightarrow> world \<Rightarrow> effect list \<Rightarrow> response \<times> world \<times> effect list" where
  "fetch_and_cache e w sofar =
     (case fetchImagesFromCloudinary e of
        (Inl err, fx) \<Rightarrow>
          (res_status_json 500 (ErrorBody False (message err)), w, sofar @ fx)
      | (Inr images, fx) \<Rightarrow>
          if redisConnected (back_from_fetch e w) then
            (case redis_setEx e (back_from_fetch e w) IMAGES_CACHE_KEY CACHE_TTL
                    (JSON_stringify (JArr images)) of
               Inl err \<Rightarrow>
                 (res_status_json 500 (ErrorBody False (message err)), back_from_fetch e w,
                  sofar @ fx @ [RedisSetEx IMAGES_CACHE_KEY CACHE_TTL (JSON_stringify (JArr images))])
             | Inr w' \<Rightarrow>
                 (res_json (ImagesBody True False (JArr images)), w',
                  sofar @ fx @ [RedisSetEx IMAGES_CACHE_KEY CACHE_TTL (JSON_stringify (JArr images))]))
          else (res_json (ImagesBody True False (JArr images)), back_from_fetch e w, sofar @ fx))"

text \<open>
  The handler. Its first reading of the flag (line 86) is of the state in which the request
  arrives. \<open>if (cachedImages)\<close> is false for \<open>null\<close> and for the empty string.
\<close>

definition api_images :: "env \<Rightarrow> world \<Rightarrow> response \<times> world \<times> effect list" where
  "api_images e w =
     (if redisConnected w then
        (case redis_get e w IMAGES_CACHE_KEY of
           Inl err \<Rightarrow>
             (res_status_json 500 (ErrorBody False (message err)), w, [RedisGet IMAGES_CACHE_KEY])
         | Inr cachedImages \<Rightarrow>
             (case cachedImages of
                None \<Rightarrow> fetch_and_cache e w [RedisGet IMAGES_CACHE_KEY]
              | Some text \<Rightarrow>
                  if text = [] then fetch_and_cache e w [RedisGet IMAGES_CACHE_KEY]
                  else
                    (case JSON_parse text of
                       None \<Rightarrow>
                         (res_status_json 500 (ErrorBody False (syntax_error_message e text)), w,
                          [RedisGet IMAGES_CACHE_KEY])
                     | Some data \<Rightarrow>
                         (res_json (ImagesBody True True data), w, [RedisGet IMAGES_CACHE_KEY]))))
      else fetch_and_cache e w [])"

subsection \<open>\<open>GET /health\<close>, \<open>POST /api/clear-cache\<close>, SIGINT\<close>

definition health :: "world \<Rightarrow> response \<times> world \<times> effect list" where
  "health w =
     (res_json (HealthBody ''OK'' (if redisConnected w then ''connected'' else ''disconnected'')),
      w, [])"

definition api_clear_cache :: "env \<Rightarrow> world \<Rightarrow> response \<times> world \<times> effect list" where
  "api_clear_cache e w =
     (if redisConnected w then
        (case redis_del e w IMAGES_CACHE_KEY of
           Inl err \<Rightarrow>
             (res_status_json 500 (ErrorBody False (message err)), w, [RedisDel IMAGES_CACHE_KEY])
         | Inr w' \<Rightarrow>
             (res_json (MessageBody True ''Cache cleared''), w', [RedisDel IMAGES_CACHE_KEY]))
      else (res_status_json 400 (MessageBody False ''Redis not connected''), w, []))"

text \<open>The shutdown handler closes the client if it is connected; it sends no response.\<close>

definition on_sigint :: "world \<Rightarrow> world \<times> effect list" where
  "on_sigint w = (if redisConnected w then (w, [RedisQuit]) else (w, []))"

text \<open>The requests the server answers.\<close>

datatype request = GetImages | GetHealth | PostClearCache

fun handle :: "env \<Rightarrow> world \<Rightarrow> request \<Rightarrow> response \<times> world \<times> effect list" where
  "handle e w GetImages = api_images e w"
| "handle e w GetHealth = health w"
| "handle e w PostClearCache = api_clear_cache e w"

section \<open>Notions used by the properties\<close>

text \<open>
  An answer of the media host that conforms to the query: a resource list no longer than
  asked for, every resource with its identifier and its original URL.
\<close>

definition well_formed :: "search_query \<Rightarrow> search_result \<Rightarrow> bool" where
  "well_formed q result =
     (case resources result of
        None \<Rightarrow> False
      | Some rs \<Rightarrow>
          length rs \<le> max_results q \<and>
          list_all (\<lambda>r. public_id r \<noteq> None \<and> secure_url r \<noteq> None) rs)"

text \<open>
  An answer that the transformation cannot get through: no resource list, or a resource
  without identifier.
\<close>

definition unusable :: "search_result \<Rightarrow> bool" where
  "unusable result =
     (case resources result of
        None \<Rightarrow> True
      | Some rs \<Rightarrow> list_ex (\<lambda>r. public_id r = None) rs)"

text \<open>An effect that, if it is a cache command, addresses the one key (a write: for one hour).\<close>

fun on_fixed_key :: "effect \<Rightarrow> bool" where
  "on_fixed_key (RedisGet k) = (k = ''cloudinary:images:all'')"
| "on_fixed_key (RedisSetEx k ttl v) = (k = ''cloudinary:images:all'' \<and> ttl = 3600)"
| "on_fixed_key (RedisDel k) = (k = ''cloudinary:images:all'')"
| "on_fixed_key RedisQuit = True"
| "on_fixed_key (CloudinarySearch q) = True"

fun is_search :: "effect \<Rightarrow> bool" where
  "is_search (CloudinarySearch q) = True"
| "is_search _ = False"

text \<open>The shape of what the fetcher returns: the four properties, the third maybe undefined.\<close>

definition is_descriptor :: "jsval \<Rightarrow> bool" where
  "is_descriptor x =
     (\<exists>a b c d. x = JObj [(''public_id'', JStr a), (''url'', JStr b),
                          (''original_url'', c), (''title'', JStr d)]
        \<and> (c = JUndefined \<or> (\<exists>u. c = JStr u)))"

text \<open>An object as \<open>JSON.stringify\<close> sees it: without the properties that are undefined.\<close>

fun defined_props :: "jsval \<Rightarrow> jsval" where
  "defined_props (JObj kvs) = JObj (filter (\<lambda>(k, v). v \<noteq> JUndefined) kvs)"
| "defined_props v = v"

subsection \<open>Sample surroundings\<close>

definition sample_resources :: "resource list" where
  "sample_resources =
     [\<lparr>public_id = Some ''pets/cat'', secure_url = Some ''https://h/pets/cat.jpg''\<rparr>,
      \<lparr>public_id = Some ''dog'', secure_url = Some ''https://h/dog.jpg''\<rparr>]"

text \<open>
  A media host that answers with its first \<open>max_results\<close> resources; a cache that works;
  no connection callback during the request.
\<close>

definition sample_env :: env where
  "sample_env =
     \<lparr>search_execute = (\<lambda>q. Inr \<lparr>resources = Some (take (max_results q) sample_resources)\<rparr>),
      cloudinary_url = (\<lambda>pid opts. ''https://h/c_'' @ crop opts @ ''/'' @ pid),
      get_fault = None, setEx_fault = None, del_fault = None,
      syntax_error_message = (\<lambda>s. ''Unexpected token''),
      connects_meanwhile = False\<rparr>"

text \<open>What the fetcher makes of these resources.\<close>

definition sample_snapshot :: "jsval list" where
  "sample_snapshot =
     [JObj [(''public_id'', JStr ''pets/cat''), (''url'', JStr ''https://h/c_fill/pets/cat''),
            (''original_url'', JStr ''https://h/pets/cat.jpg''), (''title'', JStr ''cat'')],
      JObj [(''public_id'', JStr ''dog''), (''url'', JStr ''https://h/c_fill/dog''),
            (''original_url'', JStr ''https://h/dog.jpg''), (''title'', JStr ''dog'')]]"

text \<open>A media host that is down.\<close>

definition failing_env :: env where
  "failing_env = sample_env\<lparr>search_execute := (\<lambda>q. Inl (Error ''ECONNREFUSED''))\<rparr>"

text \<open>A media host whose one resource comes without its \<open>secure_url\<close>.\<close>

definition partial_env :: env where
  "partial_env =
     sample_env\<lparr>search_execute :=
       (\<lambda>q. Inr \<lparr>resources = Some [\<lparr>public_id = Some ''dog'', secure_url = None\<rparr>]\<rparr>)\<rparr>"

text \<open>A connected server with an empty cache, one with a cached entry, one without Redis.\<close>

definition empty_world :: world where
  "empty_world = \<lparr>redisConnected = True, store = Map.empty, now = 100\<rparr>"

definition cached_world :: world where
  "cached_world =
     \<lparr>redisConnected = True,
      store = [''cloudinary:images:all'' \<mapsto> (JSON_stringify (JArr sample_snapshot), 3700)],
      now = 100\<rparr>"

definition down_world :: world where
  "down_world = \<lparr>redisConnected = False, store = Map.empty, now = 100\<rparr>"

section \<open>Unfolding the handlers and the samples\<close>

lemmas handler_defs = api_images_def fetch_and_cache_def fetchImagesFromCloudinary_def
  api_clear_cache_def health_def redis_get_def redis_setEx_def redis_del_def
  res_json_def res_status_json_def
  back_from_fetch_def on_connect_def

lemmas sample_defs = sample_env_def empty_world_def cached_world_def
  down_world_def sample_resources_def the_search_def describe_def pop_def fetch_try_def
  IMAGES_CACHE_KEY_def CACHE_TTL_def

lemma fetch_sample:
  "fetchImagesFromCloudinary sample_env = (Inr sample_snapshot, [CloudinarySearch the_search])"
  by (simp add: fetchImagesFromCloudinary_def sample_defs sample_snapshot_def)

lemma back_from_fetch_connected: "redisConnected w \<Longrightarrow> back_from_fetch e w = w"
  by (cases w) (simp add: back_from_fetch_def on_connect_def)

lemma back_from_fetch_fields:
  "store (back_from_fetch e w) = store w" "now (back_from_fetch e w) = now w"
  "redisConnected (back_from_fetch e w) = (redisConnected w \<or> connects_meanwhile e)"
  by (simp_all add: back_from_fetch_def on_connect_def)

lemma JSON_parse_empty: "JSON_parse [] = None"
  by (simp add: JSON_parse_def)

lemma describe_faults:
  "describe (e\<lparr>get_fault := g, setEx_fault := s, del_fault := d\<rparr>) = describe e"
  by (rule ext) (simp add: describe_def split: option.splits)

lemma fetch_try_faults:
  "fetch_try (e\<lparr>get_fault := g, setEx_fault := s, del_fault := d\<rparr>) = fetch_try e"
  by (simp add: fetch_try_def describe_faults split: sum.splits option.splits)

section \<open>Properties of \<open>JSON.parse\<close> and \<open>JSON.stringify\<close>\<close>

subsection \<open>String literals\<close>

lemma hex_value_digit: "n < 16 \<Longrightarrow> hex_value (hex_digit n) = Some n"
proof -
  assume n: "n < 16"
  have "list_all (\<lambda>n. hex_value (hex_digit n) = Some n) [0..<16]"
    by code_simp
  with n show ?thesis
    by (simp add: list_all_iff)
qed

lemma hex4_low: "n < 32 \<Longrightarrow> hex4 CHR ''0'' CHR ''0'' (hex_digit (n div 16)) (hex_digit (n mod 16)) = Some n"
proof -
  assume n: "n < 32"
  then have "n div 16 < 16" by simp
  then have a: "hex_value (hex_digit (n div 16)) = Some (n div 16)"
    by (rule hex_value_digit)
  have b: "hex_value (hex_digit (n mod 16)) = Some (n mod 16)"
    by (rule hex_value_digit) simp
  have z: "hex_value CHR ''0'' = Some 0"
    by (simp add: hex_value_def is_digit_def)
  show ?thesis
    by (simp add: hex4_def a b z)
qed

lemma parse_chars_backslash:
  "e \<noteq> CHR ''u'' \<Longrightarrow> parse_chars (CHR 0x5C # e # rest) =
     (case unescape e of None \<Rightarrow> None | Some x \<Rightarrow> cons_fst x (parse_chars rest))"
  by simp

lemma parse_chars_u:
  "parse_chars (CHR 0x5C # CHR ''u'' # h3 # h2 # h1 # h0 # rest) =
     (case hex4 h3 h2 h1 h0 of
        None \<Rightarrow> None
      | Some n \<Rightarrow> if n < 256 then cons_fst (char_of n) (parse_chars rest) else None)"
  by simp

lemma parse_chars_plain:
  "c \<noteq> CHR 0x22 \<Longrightarrow> c \<noteq> CHR 0x5C \<Longrightarrow> \<not> (of_char c :: nat) < 32 \<Longrightarrow>
     parse_chars (c # rest) = cons_fst c (parse_chars rest)"
  by simp

lemma parse_chars_escape_char:
  "parse_chars (escape_char c @ rest) = cons_fst c (parse_chars rest)"
proof -
  consider (b) "c = CHR 0x08" | (t) "c = CHR 0x09" | (n) "c = CHR 0x0A" | (f) "c = CHR 0x0C"
    | (r) "c = CHR 0x0D" | (q) "c = CHR 0x22" | (s) "c = CHR 0x5C"
    | (low) "c \<noteq> CHR 0x08" "c \<noteq> CHR 0x09" "c \<noteq> CHR 0x0A" "c \<noteq> CHR 0x0C" "c \<noteq> CHR 0x0D"
        "c \<noteq> CHR 0x22" "c \<noteq> CHR 0x5C" "(of_char c :: nat) < 32"
    | (plain) "c \<noteq> CHR 0x08" "c \<noteq> CHR 0x09" "c \<noteq> CHR 0x0A" "c \<noteq> CHR 0x0C" "c \<noteq> CHR 0x0D"
        "c \<noteq> CHR 0x22" "c \<noteq> CHR 0x5C" "\<not> (of_char c :: nat) < 32"
    by blast
  then show ?thesis
  proof cases
    case b
    then show ?thesis
      by (simp add: escape_char_def parse_chars_backslash unescape_def del: parse_chars.simps)
  next
    case t
    then show ?thesis
      by (simp add: escape_char_def parse_chars_backslash unescape_def del: parse_chars.simps)
  next
    case n
    then show ?thesis
      by (simp add: escape_char_def parse_chars_backslash unescape_def del: parse_chars.simps)
  next
    case f
    then show ?thesis
      by (simp add: escape_char_def parse_chars_backslash unescape_def del: parse_chars.simps)
  next
    case r
    then show ?thesis
      by (simp add: escape_char_def parse_chars_backslash unescape_def del: parse_chars.simps)
  next
    case q
    then show ?thesis
      by (simp add: escape_char_def parse_chars_backslash unescape_def del: parse_chars.simps)
  next
    case s
    then show ?thesis
      by (simp add: escape_char_def parse_chars_backslash unescape_def del: parse_chars.simps)
  next
    case low
    then have "escape_char c = [CHR 0x5C, CHR ''u'', CHR ''0'', CHR ''0'',
              hex_digit (of_char c div 16), hex_digit (of_char c mod 16)]"
      by (simp add: escape_char_def)
    with low(8) show ?thesis
      by (simp add: parse_chars_u hex4_low del: parse_chars.simps)
  next
    case plain
    then have "escape_char c = [c]"
      by (simp add: escape_char_def)
    with plain show ?thesis
      by (simp add: parse_chars_plain del: parse_chars.simps)
  qed
qed

lemma parse_chars_escaped:
  "parse_chars (concat (map escape_char s) @ CHR 0x22 # rest) = Some (s, rest)"
proof (induction s)
  case Nil
  show ?case by simp
next
  case (Cons c s)
  then show ?case
    by (simp add: parse_chars_escape_char cons_fst_def del: parse_chars.simps)
qed

subsection \<open>Descriptors and arrays of them\<close>

lemma parse_value_object4:
  assumes "distinct [k1, k2, k3, k4]"
  shows "parse_value (Suc (Suc (Suc (Suc (Suc (Suc n))))))
           (JSON_stringify (JObj [(k1, JStr a), (k2, JStr b), (k3, JStr c), (k4, JStr d)]) @ rest) =
         Some (JObj [(k1, JStr a), (k2, JStr b), (k3, JStr c), (k4, JStr d)], rest)"
  using assms
  by (simp add: quote_def is_ws_def parse_chars_escaped map_fst_def cons_fst_def object_of_def
        del: parse_chars.simps)

lemma parse_value_object3:
  assumes "distinct [k1, k2, k4]"
  shows "parse_value (Suc (Suc (Suc (Suc (Suc (Suc n))))))
           (JSON_stringify (JObj [(k1, JStr a), (k2, JStr b), (k3, JUndefined), (k4, JStr d)]) @ rest) =
         Some (JObj [(k1, JStr a), (k2, JStr b), (k4, JStr d)], rest)"
  using assms
  by (simp add: quote_def is_ws_def parse_chars_escaped map_fst_def cons_fst_def object_of_def
        del: parse_chars.simps)

lemma parse_value_descriptor:
  assumes "is_descriptor x" and "6 \<le> f"
  shows "parse_value f (JSON_stringify x @ rest) = Some (defined_props x, rest)"
proof -
  define n where "n = f - 6"
  with assms(2) have f: "f = Suc (Suc (Suc (Suc (Suc (Suc n)))))"
    by arith
  from assms(1) obtain a b c d where
    x: "x = JObj [(''public_id'', JStr a), (''url'', JStr b), (''original_url'', c), (''title'', JStr d)]"
    and c: "c = JUndefined \<or> (\<exists>u. c = JStr u)"
    by (auto simp add: is_descriptor_def)
  from c show ?thesis
  proof
    assume cu: "c = JUndefined"
    have "parse_value (Suc (Suc (Suc (Suc (Suc (Suc n))))))
           (JSON_stringify (JObj [(''public_id'', JStr a), (''url'', JStr b),
              (''original_url'', JUndefined), (''title'', JStr d)]) @ rest) =
         Some (JObj [(''public_id'', JStr a), (''url'', JStr b), (''title'', JStr d)], rest)"
      by (rule parse_value_object3) simp
    then show ?thesis
      by (simp add: x f cu del: parse_value.simps JSON_stringify.simps)
  next
    assume "\<exists>u. c = JStr u"
    then obtain u where cu: "c = JStr u" by blast
    have "parse_value (Suc (Suc (Suc (Suc (Suc (Suc n))))))
           (JSON_stringify (JObj [(''public_id'', JStr a), (''url'', JStr b),
              (''original_url'', JStr u), (''title'', JStr d)]) @ rest) =
         Some (JObj [(''public_id'', JStr a), (''url'', JStr b),
              (''original_url'', JStr u), (''title'', JStr d)], rest)"
      by (rule parse_value_object4) simp
    then show ?thesis
      by (simp add: x f cu del: parse_value.simps JSON_stringify.simps)
  qed
qed

lemma join_Cons: "join sep (x # xs) = (if xs = [] then x else x @ sep @ join sep xs)"
  by (cases xs) simp_all

lemma stringify_descriptor_head:
  "is_descriptor x \<Longrightarrow> \<exists>t. JSON_stringify x = CHR ''{'' # t \<and> 4 \<le> length t"
  by (auto simp add: is_descriptor_def quote_def)

lemma parse_elements_descriptors:
  assumes "list_all is_descriptor xs" and "xs \<noteq> []" and "length xs + 6 \<le> f"
  shows "parse_elements f (join '','' (map JSON_stringify xs) @ CHR '']'' # rest) =
           Some (map defined_props xs, rest)"
  using assms
proof (induction xs arbitrary: f)
  case Nil
  then show ?case by simp
next
  case (Cons x xs)
  from Cons.prems(3) obtain m where f: "f = Suc m" and m: "length xs + 6 \<le> m"
    by (cases f) auto
  from Cons.prems(1) have x: "is_descriptor x" and xs: "list_all is_descriptor xs"
    by simp_all
  from m have m6: "6 \<le> m" by simp
  show ?case
  proof (cases "xs = []")
    case True
    then show ?thesis
      by (simp add: f parse_value_descriptor [OF x m6] is_ws_def)
  next
    case False
    have "parse_elements m (join '','' (map JSON_stringify xs) @ CHR '']'' # rest) =
            Some (map defined_props xs, rest)"
      by (rule Cons.IH [OF xs False m])
    with False show ?thesis
      by (simp add: f join_Cons parse_value_descriptor [OF x m6] is_ws_def cons_fst_def)
  qed
qed

lemma length_join_descriptors:
  "list_all is_descriptor xs \<Longrightarrow> xs \<noteq> [] \<Longrightarrow>
     length xs + 4 \<le> length (join sep (map JSON_stringify xs))"
proof (induction xs)
  case Nil
  then show ?case by simp
next
  case (Cons x xs)
  from Cons.prems(1) obtain t where t: "JSON_stringify x = CHR ''{'' # t" "4 \<le> length t"
    using stringify_descriptor_head [of x] by auto
  show ?case
  proof (cases "xs = []")
    case True
    with t show ?thesis by simp
  next
    case False
    with Cons have "length xs + 4 \<le> length (join sep (map JSON_stringify xs))"
      by simp
    with False t show ?thesis
      by (simp add: join_Cons)
  qed
qed

lemma parse_stringify_descriptors:
  assumes "list_all is_descriptor xs"
  shows "JSON_parse (JSON_stringify (JArr xs)) = Some (JArr (map defined_props xs))"
proof (cases "xs = []")
  case True
  then show ?thesis
    by (simp add: JSON_parse_def is_ws_def)
next
  case False
  let ?inner = "join '','' (map JSON_stringify xs)"
  from False obtain x xs' where xs: "xs = x # xs'"
    by (cases xs) auto
  with assms have "is_descriptor x" by simp
  then obtain t where "JSON_stringify x = CHR ''{'' # t"
    using stringify_descriptor_head [of x] by auto
  then have "\<exists>t'. ?inner = CHR ''{'' # t'"
    by (cases "xs' = []") (simp_all add: xs join_Cons)
  then obtain t' where inner: "?inner = CHR ''{'' # t'"
    by blast
  have len: "length xs + 6 \<le> length (JSON_stringify (JArr xs))"
    using length_join_descriptors [OF assms False, of "'',''"] by simp
  have "parse_elements (length (JSON_stringify (JArr xs))) (?inner @ CHR '']'' # []) =
          Some (map defined_props xs, [])"
    by (rule parse_elements_descriptors [OF assms False len])
  then have "parse_value (Suc (length (JSON_stringify (JArr xs)))) (JSON_stringify (JArr xs)) =
               Some (JArr (map defined_props xs), [])"
    using inner by (simp add: is_ws_def map_fst_def del: parse_elements.simps)
  then show ?thesis
    by (simp add: JSON_parse_def del: parse_value.simps JSON_stringify.simps)
qed

subsection \<open>The bound of the parser is never reached\<close>

text \<open>
  Every successful call of the parser reads at least one character, and it succeeds again
  with any bound that is at least the number of characters it read. So a text that parses
  with some bound parses with the bound \<open>JSON_parse\<close> starts from, to the same value.
\<close>

lemma skip_ws_length: "length (skip_ws s) \<le> length s"
  by (induction s) auto

lemma skip_ws_Cons: "skip_ws s = c # cs \<Longrightarrow> length cs < length s"
  using skip_ws_length [of s] by simp

lemma cons_fst_Some: "cons_fst x p = Some (ys, r) \<Longrightarrow> \<exists>xs. p = Some (xs, r) \<and> ys = x # xs"
  by (auto simp add: cons_fst_def split: option.splits)

lemma parse_chars_shorter: "parse_chars s = Some (x, r) \<Longrightarrow> length r < length s"
proof (induction "length s" arbitrary: s x r rule: less_induct)
  case less
  show ?case
  proof (cases s)
    case Nil
    with less.prems show ?thesis by simp
  next
    case (Cons c cs)
    show ?thesis
    proof (cases "c = CHR 0x22")
      case True
      with less.prems Cons show ?thesis by simp
    next
      case nq: False
      show ?thesis
      proof (cases "c = CHR 0x5C")
        case False
        with nq less.prems Cons obtain xs where "parse_chars cs = Some (xs, r)"
          by (auto split: if_splits dest: cons_fst_Some)
        with less.hyps [of cs] Cons show ?thesis by fastforce
      next
        case bs: True
        show ?thesis
        proof (cases cs)
          case Nil
          with bs less.prems Cons show ?thesis by simp
        next
          case e: (Cons e r0)
          show ?thesis
          proof (cases "e = CHR ''u''")
            case False
            with bs e Cons less.prems obtain xs where "parse_chars r0 = Some (xs, r)"
              by (auto simp add: parse_chars_backslash split: option.splits dest: cons_fst_Some
                    simp del: parse_chars.simps)
            with less.hyps [of r0] Cons e show ?thesis by fastforce
          next
            case True
            with bs e Cons less.prems obtain h3 h2 h1 h0 r1 where r0: "r0 = h3 # h2 # h1 # h0 # r1"
              by (auto split: list.splits)
            with True bs e Cons less.prems obtain xs where "parse_chars r1 = Some (xs, r)"
              by (auto simp add: parse_chars_u split: option.splits if_splits dest: cons_fst_Some
                    simp del: parse_chars.simps)
            with less.hyps [of r1] Cons e r0 show ?thesis by fastforce
          qed
        qed
      qed
    qed
  qed
qed

lemma parse_int_part_shorter: "parse_int_part s = Some (i, r) \<Longrightarrow> length r < length s"
  using length_dropWhile_le [of is_digit "tl s"]
  by (auto simp add: parse_int_part_def split: list.splits if_splits)

lemma parse_frac_shorter: "parse_frac s = Some (f, r) \<Longrightarrow> length r \<le> length s"
  using length_dropWhile_le [of is_digit "tl s"]
  by (auto simp add: parse_frac_def split: list.splits if_splits)

lemma parse_exp_shorter: "parse_exp s = Some (x, r) \<Longrightarrow> length r \<le> length s"
proof -
  assume a: "parse_exp s = Some (x, r)"
  have sg: "length (snd (parse_sign t)) \<le> length t" for t
    by (auto simp add: parse_sign_def split: list.splits)
  have "length (dropWhile is_digit (snd (parse_sign t))) \<le> length t" for t
    using length_dropWhile_le [of is_digit "snd (parse_sign t)"] sg [of t] by linarith
  from this [of "tl s"] a show ?thesis
    by (auto simp add: parse_exp_def split: list.splits if_splits prod.splits)
qed

lemma parse_number_shorter: "parse_number s = Some (x, r) \<Longrightarrow> length r < length s"
  by (auto simp add: parse_number_def split: list.splits if_splits prod.splits option.splits
        dest!: parse_int_part_shorter parse_frac_shorter parse_exp_shorter)


lemma map_fst_Some: "map_fst f p = Some (y, r) \<Longrightarrow> \<exists>x. p = Some (x, r) \<and> y = f x"
  by (auto simp add: map_fst_def split: option.splits)

lemma map_fst_mono:
  "(\<And>x. p = Some x \<Longrightarrow> p' = Some x) \<Longrightarrow> map_fst f p = Some y \<Longrightarrow> map_fst f p' = Some y"
  by (auto simp add: map_fst_def split: option.splits)

lemma cons_fst_mono:
  "(\<And>x. p = Some x \<Longrightarrow> p' = Some x) \<Longrightarrow> cons_fst v p = Some y \<Longrightarrow> cons_fst v p' = Some y"
  by (auto simp add: cons_fst_def split: option.splits)

lemma parse_fuel_Suc:
  "parse_value n s = Some p \<Longrightarrow> parse_value (Suc n) s = Some p"
  "parse_elements n s = Some q \<Longrightarrow> parse_elements (Suc n) s = Some q"
  "parse_members n s = Some u \<Longrightarrow> parse_members (Suc n) s = Some u"
proof (induction n s and n s and n s arbitrary: p and q and u
    rule: parse_value_parse_elements_parse_members.induct)
  case (1 s)
  then show ?case by simp
next
  case (2 n s)
  from "2.prems" obtain c cs where sk: "skip_ws s = c # cs"
    by (auto split: list.splits)
  show ?case
  proof (cases "c = CHR ''['' \<or> c = CHR ''{''")
    case False
    with sk have "parse_value (Suc (Suc n)) s = parse_value (Suc n) s"
      by (simp del: parse_elements.simps parse_members.simps)
    with "2.prems" show ?thesis
      by (simp del: parse_value.simps)
  next
    case True
    then show ?thesis
    proof
      assume c: "c = CHR ''[''"
      from "2.prems" sk c obtain d ds where sd: "skip_ws cs = d # ds"
        by (auto split: list.splits)
      show ?thesis
      proof (cases "d = CHR '']''")
        case True
        with "2.prems" sk c sd show ?thesis
          by (simp del: parse_elements.simps parse_members.simps)
      next
        case False
        have "parse_elements n cs = Some x \<Longrightarrow> parse_elements (Suc n) cs = Some x" for x
          using "2.IH"(1) [OF sk _ c sd False] c by (simp del: parse_elements.simps)
        with "2.prems" sk c sd False show ?thesis
          by (auto simp del: parse_elements.simps parse_members.simps elim: map_fst_mono [rotated])
      qed
    next
      assume c: "c = CHR ''{''"
      from "2.prems" sk c obtain d ds where sd: "skip_ws cs = d # ds"
        by (auto split: list.splits)
      show ?thesis
      proof (cases "d = CHR ''}''")
        case True
        with "2.prems" sk c sd show ?thesis
          by (simp del: parse_elements.simps parse_members.simps)
      next
        case False
        have "parse_members n cs = Some x \<Longrightarrow> parse_members (Suc n) cs = Some x" for x
          using "2.IH"(2) [OF sk _ _ c sd False] c by (simp del: parse_members.simps)
        with "2.prems" sk c sd False show ?thesis
          by (auto simp del: parse_elements.simps parse_members.simps elim: map_fst_mono [rotated])
      qed
    qed
  qed
next
  case (3 s)
  then show ?case by simp
next
  case (4 n s)
  from "4.prems" obtain v r where pv: "parse_value n s = Some (v, r)"
    by (auto split: option.splits)
  then have pv': "parse_value (Suc n) s = Some (v, r)"
    by (rule "4.IH"(1))
  from "4.prems" pv obtain d ds where sd: "skip_ws r = d # ds"
    by (auto split: list.splits)
  show ?case
  proof (cases "d = CHR '',''")
    case True
    have up: "parse_elements n ds = Some x \<Longrightarrow> parse_elements (Suc n) ds = Some x" for x
      using "4.IH"(2) [OF pv refl sd True] by (simp del: parse_elements.simps)
    from "4.prems" pv sd True have "cons_fst v (parse_elements n ds) = Some q"
      by (simp del: parse_value.simps)
    then have "cons_fst v (parse_elements (Suc n) ds) = Some q"
      by (rule cons_fst_mono [rotated]) (rule up)
    then show ?thesis
      unfolding parse_elements.simps(2) [of "Suc n" s]
      by (simp add: pv' sd True del: parse_elements.simps parse_value.simps)
  next
    case False
    from "4.prems" pv sd False have "(if d = CHR '']'' then Some ([v], ds) else None) = Some q"
      by (simp del: parse_value.simps)
    then show ?thesis
      unfolding parse_elements.simps(2) [of "Suc n" s]
      by (simp add: pv' sd False del: parse_elements.simps parse_value.simps)
  qed
next
  case (5 s)
  then show ?case by simp
next
  case (6 n s)
  from "6.prems" obtain q cs where sk: "skip_ws s = q # cs"
    by (auto split: list.splits)
  from "6.prems" sk have q: "q = CHR 0x22"
    by (auto split: if_splits)
  from "6.prems" sk q obtain k r where pc: "parse_chars cs = Some (k, r)"
    by (auto split: option.splits)
  from "6.prems" sk q pc obtain colon r1 where sc: "skip_ws r = colon # r1"
    by (auto split: list.splits)
  from "6.prems" sk q pc sc have colon: "colon = CHR '':''"
    by (auto split: if_splits)
  from "6.prems" sk q pc sc colon obtain v r2 where pv: "parse_value n r1 = Some (v, r2)"
    by (auto split: option.splits)
  have pv': "parse_value (Suc n) r1 = Some (v, r2)"
    using "6.IH"(1) [OF sk q pc refl sc colon pv] .
  from "6.prems" sk q pc sc colon pv obtain d ds where sd: "skip_ws r2 = d # ds"
    by (auto split: list.splits)
  show ?case
  proof (cases "d = CHR '',''")
    case True
    have up: "parse_members n ds = Some x \<Longrightarrow> parse_members (Suc n) ds = Some x" for x
      using "6.IH"(2) [OF sk q pc refl sc colon pv refl sd True] by (simp del: parse_members.simps)
    from "6.prems" sk q pc sc colon pv sd True have "cons_fst (k, v) (parse_members n ds) = Some u"
      by (simp del: parse_value.simps)
    then have "cons_fst (k, v) (parse_members (Suc n) ds) = Some u"
      by (rule cons_fst_mono [rotated]) (rule up)
    then show ?thesis
      unfolding parse_members.simps(2) [of "Suc n" s]
      by (simp add: sk q pc sc colon pv' sd True del: parse_members.simps parse_value.simps)
  next
    case False
    from "6.prems" sk q pc sc colon pv sd False
    have "(if d = CHR ''}'' then Some ([(k, v)], ds) else None) = Some u"
      by (simp del: parse_value.simps)
    then show ?thesis
      unfolding parse_members.simps(2) [of "Suc n" s]
      by (simp add: sk q pc sc colon pv' sd False del: parse_members.simps parse_value.simps)
  qed
qed


lemma parse_fuel_mono:
  assumes "n \<le> m"
  shows "parse_value n s = Some p \<Longrightarrow> parse_value m s = Some p"
    and "parse_elements n s = Some q \<Longrightarrow> parse_elements m s = Some q"
    and "parse_members n s = Some u \<Longrightarrow> parse_members m s = Some u"
  using assms
  by (induction rule: dec_induct) (simp_all add: parse_fuel_Suc del: parse_value.simps
      parse_elements.simps parse_members.simps)

lemma parse_value_flat:
  assumes "skip_ws s = c # cs" and "c \<noteq> CHR ''[''" and "c \<noteq> CHR ''{''"
  shows "parse_value (Suc k) s = parse_value (Suc n) s"
  using assms by (simp del: parse_elements.simps parse_members.simps)

lemma parse_value_flat_shorter:
  assumes "skip_ws s = c # cs" and "c \<noteq> CHR ''[''" and "c \<noteq> CHR ''{''"
    and "parse_value (Suc n) s = Some (v, r)"
  shows "length r < length s"
proof -
  have le: "length (c # cs) \<le> length s"
    using skip_ws_length [of s] assms(1) by simp
  from assms consider
      (str) "map_fst JStr (parse_chars cs) = Some (v, r)"
    | (lit4) "r = drop 4 (c # cs)"
    | (lit5) "r = drop 5 (c # cs)"
    | (num) "map_fst JNum (parse_number (c # cs)) = Some (v, r)"
    by (auto simp del: parse_elements.simps parse_members.simps split: if_splits)
  then show ?thesis
  proof cases
    case str
    then obtain x where "parse_chars cs = Some (x, r)"
      by (auto dest: map_fst_Some)
    then have "length r < length cs"
      by (rule parse_chars_shorter)
    with le show ?thesis by simp
  next
    case lit4
    with le show ?thesis by simp
  next
    case lit5
    with le show ?thesis by simp
  next
    case num
    then obtain x where "parse_number (c # cs) = Some (x, r)"
      by (auto dest: map_fst_Some)
    then have "length r < length (c # cs)"
      by (rule parse_number_shorter)
    with le show ?thesis by simp
  qed
qed


lemma parse_fuel_enough:
  "parse_value n s = Some (v, r) \<Longrightarrow>
     length r < length s \<and> parse_value (length s - length r) s = Some (v, r)"
  "parse_elements n s = Some (vs, r') \<Longrightarrow>
     length r' < length s \<and> parse_elements (length s - length r') s = Some (vs, r')"
  "parse_members n s = Some (ms, r'') \<Longrightarrow>
     length r'' < length s \<and> parse_members (length s - length r'') s = Some (ms, r'')"
proof (induction n s and n s and n s arbitrary: v r and vs r' and ms r''
    rule: parse_value_parse_elements_parse_members.induct)
  case (1 s)
  then show ?case by simp
next
  case (2 n s)
  from "2.prems" obtain c cs where sk: "skip_ws s = c # cs"
    by (auto split: list.splits)
  then have lcs: "length cs < length s"
    by (rule skip_ws_Cons)
  show ?case
  proof (cases "c = CHR ''['' \<or> c = CHR ''{''")
    case False
    then have nb: "c \<noteq> CHR ''[''" "c \<noteq> CHR ''{''" by simp_all
    have sh: "length r < length s"
      by (rule parse_value_flat_shorter [OF sk nb "2.prems"])
    then obtain k where k: "length s - length r = Suc k"
      by (cases "length s - length r") auto
    have "parse_value (Suc k) s = parse_value (Suc n) s"
      by (rule parse_value_flat [OF sk nb])
    with sh k "2.prems" show ?thesis
      by (simp del: parse_value.simps)
  next
    case True
    then show ?thesis
    proof
      assume c: "c = CHR ''[''"
      from "2.prems" sk c obtain d ds where sd: "skip_ws cs = d # ds"
        by (auto split: list.splits)
      then have lds: "length ds < length cs"
        by (rule skip_ws_Cons)
      show ?thesis
      proof (cases "d = CHR '']''")
        case True
        with "2.prems" sk c sd have vr: "v = JArr []" "r = ds"
          by (simp_all del: parse_elements.simps parse_members.simps)
        with lds lcs obtain k where k: "length s - length r = Suc k"
          by (cases "length s - length r") auto
        have "parse_value (Suc k) s = Some (JArr [], ds)"
          using sk c sd True by (simp del: parse_elements.simps parse_members.simps)
        with vr k lds lcs show ?thesis
          by (simp del: parse_value.simps)
      next
        case False
        from "2.prems" sk c sd False obtain xs where
          pe: "parse_elements n cs = Some (xs, r)" and v: "v = JArr xs"
          by (auto simp del: parse_elements.simps parse_members.simps dest: map_fst_Some)
        from c have nq: "c \<noteq> CHR 0x22" by simp
        from "2.IH"(1) [OF sk nq c sd False pe]
        have sh: "length r < length cs"
          and en: "parse_elements (length cs - length r) cs = Some (xs, r)"
          by simp_all
        from sh lcs obtain k where k: "length s - length r = Suc k"
          by (cases "length s - length r") auto
        with lcs have "length cs - length r \<le> k" by simp
        from parse_fuel_mono(2) [OF this en]
        have "parse_value (Suc k) s = Some (JArr xs, r)"
          using sk c sd False
          by (simp add: map_fst_def del: parse_elements.simps parse_members.simps)
        with v k sh lcs show ?thesis
          by (simp del: parse_value.simps)
      qed
    next
      assume c: "c = CHR ''{''"
      from "2.prems" sk c obtain d ds where sd: "skip_ws cs = d # ds"
        by (auto split: list.splits)
      then have lds: "length ds < length cs"
        by (rule skip_ws_Cons)
      show ?thesis
      proof (cases "d = CHR ''}''")
        case True
        with "2.prems" sk c sd have vr: "v = JObj []" "r = ds"
          by (simp_all del: parse_elements.simps parse_members.simps)
        with lds lcs obtain k where k: "length s - length r = Suc k"
          by (cases "length s - length r") auto
        have "parse_value (Suc k) s = Some (JObj [], ds)"
          using sk c sd True by (simp del: parse_elements.simps parse_members.simps)
        with vr k lds lcs show ?thesis
          by (simp del: parse_value.simps)
      next
        case False
        from "2.prems" sk c sd False obtain xs where
          pe: "parse_members n cs = Some (xs, r)" and v: "v = JObj (object_of xs)"
          by (auto simp del: parse_elements.simps parse_members.simps dest: map_fst_Some)
        from c have nq: "c \<noteq> CHR 0x22" and nb: "c \<noteq> CHR ''[''" by simp_all
        from "2.IH"(2) [OF sk nq nb c sd False pe]
        have sh: "length r < length cs"
          and en: "parse_members (length cs - length r) cs = Some (xs, r)"
          by simp_all
        from sh lcs obtain k where k: "length s - length r = Suc k"
          by (cases "length s - length r") auto
        with lcs have "length cs - length r \<le> k" by simp
        from parse_fuel_mono(3) [OF this en]
        have "parse_value (Suc k) s = Some (JObj (object_of xs), r)"
          using sk c sd False
          by (simp add: map_fst_def del: parse_elements.simps parse_members.simps)
        with v k sh lcs show ?thesis
          by (simp del: parse_value.simps)
      qed
    qed
  qed
next
  case (3 s)
  then show ?case by simp
next
  case (4 n s)
  from "4.prems" obtain v r1 where pv: "parse_value n s = Some (v, r1)"
    by (auto split: option.splits)
  from "4.IH"(1) [OF pv] have l1: "length r1 < length s"
    and e1: "parse_value (length s - length r1) s = Some (v, r1)"
    by simp_all
  from "4.prems" pv obtain d ds where sd: "skip_ws r1 = d # ds"
    by (auto split: list.splits)
  then have lds: "length ds < length r1"
    by (rule skip_ws_Cons)
  show ?case
  proof (cases "d = CHR '',''")
    case True
    from "4.prems" pv sd True have "cons_fst v (parse_elements n ds) = Some (vs, r')"
      by (simp del: parse_value.simps)
    then obtain xs where pe: "parse_elements n ds = Some (xs, r')" and vs: "vs = v # xs"
      by (auto dest: cons_fst_Some)
    from "4.IH"(2) [OF pv refl sd True pe] have l2: "length r' < length ds"
      and e2: "parse_elements (length ds - length r') ds = Some (xs, r')"
      by simp_all
    from l1 l2 lds obtain k where k: "length s - length r' = Suc k"
      by (cases "length s - length r'") auto
    with l1 l2 lds have "length s - length r1 \<le> k" "length ds - length r' \<le> k"
      by simp_all
    from parse_fuel_mono(1) [OF this(1) e1] parse_fuel_mono(2) [OF this(2) e2]
    have "parse_elements (Suc k) s = Some (v # xs, r')"
      by (simp add: sd True cons_fst_def del: parse_value.simps parse_elements.simps(2) [of k])
    with vs k l1 l2 lds show ?thesis
      by (simp del: parse_elements.simps)
  next
    case False
    from "4.prems" pv sd False have vr: "d = CHR '']''" "vs = [v]" "r' = ds"
      by (simp_all del: parse_value.simps split: if_splits)
    from l1 lds vr obtain k where k: "length s - length r' = Suc k"
      by (cases "length s - length r'") auto
    with l1 lds vr have "length s - length r1 \<le> k"
      by simp
    from parse_fuel_mono(1) [OF this e1]
    have "parse_elements (Suc k) s = Some ([v], ds)"
      by (simp add: sd vr del: parse_value.simps)
    with vr k l1 lds show ?thesis
      by (simp del: parse_elements.simps)
  qed
next
  case (5 s)
  then show ?case by simp
next
  case (6 n s)
  from "6.prems" obtain q cs where sk: "skip_ws s = q # cs"
    by (auto split: list.splits)
  then have lcs: "length cs < length s"
    by (rule skip_ws_Cons)
  from "6.prems" sk have q: "q = CHR 0x22"
    by (auto split: if_splits)
  from "6.prems" sk q obtain k r where pc: "parse_chars cs = Some (k, r)"
    by (auto split: option.splits)
  then have lr: "length r < length cs"
    by (rule parse_chars_shorter)
  from "6.prems" sk q pc obtain colon r1 where sc: "skip_ws r = colon # r1"
    by (auto split: list.splits)
  then have lr1: "length r1 < length r"
    by (rule skip_ws_Cons)
  from "6.prems" sk q pc sc have colon: "colon = CHR '':''"
    by (auto split: if_splits)
  from "6.prems" sk q pc sc colon obtain v r2 where pv: "parse_value n r1 = Some (v, r2)"
    by (auto split: option.splits)
  from "6.IH"(1) [OF sk q pc refl sc colon pv] have l2: "length r2 < length r1"
    and e2: "parse_value (length r1 - length r2) r1 = Some (v, r2)"
    by simp_all
  from "6.prems" sk q pc sc colon pv obtain d ds where sd: "skip_ws r2 = d # ds"
    by (auto split: list.splits)
  then have lds: "length ds < length r2"
    by (rule skip_ws_Cons)
  show ?case
  proof (cases "d = CHR '',''")
    case True
    from "6.prems" sk q pc sc colon pv sd True
    have "cons_fst (k, v) (parse_members n ds) = Some (ms, r'')"
      by (simp del: parse_value.simps)
    then obtain xs where pm: "parse_members n ds = Some (xs, r'')" and ms: "ms = (k, v) # xs"
      by (auto dest: cons_fst_Some)
    from "6.IH"(2) [OF sk q pc refl sc colon pv refl sd True pm] have l3: "length r'' < length ds"
      and e3: "parse_members (length ds - length r'') ds = Some (xs, r'')"
      by simp_all
    from lcs lr lr1 l2 lds l3 obtain j where j: "length s - length r'' = Suc j"
      by (cases "length s - length r''") auto
    with lcs lr lr1 l2 lds l3 have "length r1 - length r2 \<le> j" "length ds - length r'' \<le> j"
      by simp_all
    from parse_fuel_mono(1) [OF this(1) e2] parse_fuel_mono(3) [OF this(2) e3]
    have "parse_members (Suc j) s = Some ((k, v) # xs, r'')"
      by (simp add: sk q pc sc colon sd True cons_fst_def
            del: parse_value.simps parse_members.simps(2) [of j])
    with ms j lcs lr lr1 l2 lds l3 show ?thesis
      by (simp del: parse_members.simps)
  next
    case False
    from "6.prems" sk q pc sc colon pv sd False
    have vr: "d = CHR ''}''" "ms = [(k, v)]" "r'' = ds"
      by (simp_all del: parse_value.simps split: if_splits)
    from lcs lr lr1 l2 lds vr obtain j where j: "length s - length r'' = Suc j"
      by (cases "length s - length r''") auto
    with lcs lr lr1 l2 lds vr have "length r1 - length r2 \<le> j"
      by simp
    from parse_fuel_mono(1) [OF this e2]
    have "parse_members (Suc j) s = Some ([(k, v)], ds)"
      by (simp add: sk q pc sc colon sd vr del: parse_value.simps)
    with vr j lcs lr lr1 l2 lds show ?thesis
      by (simp del: parse_members.simps)
  qed
qed

lemma JSON_parse_any_fuel:
  assumes "parse_value n s = Some (v, rest)" and "skip_ws rest = []"
  shows "JSON_parse s = Some v"
proof -
  from parse_fuel_enough(1) [OF assms(1)]
  have "parse_value (length s - length rest) s = Some (v, rest)"
    by simp
  then have "parse_value (Suc (length s)) s = Some (v, rest)"
    by (rule parse_fuel_mono(1) [rotated]) simp
  with assms(2) show ?thesis
    by (simp add: JSON_parse_def del: parse_value.simps)
qed

section \<open>Properties of the fetcher\<close>

subsection \<open>Splitting at the slash\<close>

lemma split_str_not_Nil: "split_str c s \<noteq> []"
  by (induction s) (auto split: list.splits)

lemma split_str_no_sep: "c \<notin> set s \<Longrightarrow> split_str c s = [s]"
  by (induction s) auto

lemma split_str_append: "split_str c (xs @ c # ys) = split_str c xs @ split_str c ys"
proof (induction xs)
  case Nil
  then show ?case by simp
next
  case (Cons x xs)
  then show ?case
    using split_str_not_Nil [of c xs]
    by (cases "split_str c xs") auto
qed

lemma last_split_str:
  "\<exists>pre. s = pre @ last (split_str c s) \<and> c \<notin> set (last (split_str c s))
     \<and> (pre = [] \<or> last pre = c)"
proof (cases "c \<in> set s")
  case False
  then show ?thesis by (simp add: split_str_no_sep)
next
  case True
  then obtain ys zs where s: "s = ys @ c # zs" and zs: "c \<notin> set zs"
    by (auto dest: split_list_last)
  have "last (split_str c s) = zs"
    by (simp add: s split_str_append split_str_no_sep zs)
  with s zs show ?thesis
    by (intro exI [of _ "ys @ [c]"]) simp
qed

subsection \<open>When the transformation throws\<close>

lemma map_throw_Inr_iff:
  "map_throw f xs = Inr ys \<longleftrightarrow> list_all2 (\<lambda>x y. f x = Inr y) xs ys"
proof (induction xs arbitrary: ys)
  case Nil
  then show ?case by auto
next
  case (Cons x xs)
  show ?case
    by (cases ys) (auto simp add: Cons.IH [symmetric] split: sum.splits)
qed

lemma map_throw_Inl_iff:
  "(\<exists>err. map_throw f xs = Inl err) \<longleftrightarrow> list_ex (\<lambda>x. \<exists>err. f x = Inl err) xs"
  by (induction xs) (auto split: sum.splits)

lemma describe_Inl_iff: "(\<exists>err. describe e r = Inl err) \<longleftrightarrow> public_id r = None"
  by (auto simp add: describe_def split: option.splits)

lemma fetch_try_fails_iff:
  "(\<exists>err. fetch_try e = Inl err) \<longleftrightarrow>
     (\<exists>err. search_execute e the_search = Inl err)
     \<or> (\<exists>result. search_execute e the_search = Inr result \<and> unusable result)"
  by (auto simp add: fetch_try_def unusable_def map_throw_Inl_iff describe_Inl_iff
        split: sum.splits option.splits)

text \<open>
  C5, as the code has it. The fetcher calls the media host once (no retry) and raises the
  one error \<open>Failed to fetch images from Cloudinary\<close> exactly when the call rejects, or
  its answer has no resource list or a resource without identifier. When it raises, the
  GET /images handler, if it gets as far as the fetcher (the flag is not set, or the GET
  found nothing), answers with status 500 and \<open>{success: false, error: message}\<close>,
  leaving the state as it was.
\<close>

theorem upstream_failure_is_500:
  "(fst (fetchImagesFromCloudinary e) = Inl (Error ''Failed to fetch images from Cloudinary'')
      \<longleftrightarrow> (\<exists>err. search_execute e the_search = Inl err)
          \<or> (\<exists>result. search_execute e the_search = Inr result \<and> unusable result))
   \<and> snd (fetchImagesFromCloudinary e) = [CloudinarySearch the_search]
   \<and> (fst (fetchImagesFromCloudinary e) = Inl (Error ''Failed to fetch images from Cloudinary'') \<longrightarrow>
        (\<not> redisConnected w \<longrightarrow>
           api_images e w =
             (\<lparr>status = 500, body = ErrorBody False ''Failed to fetch images from Cloudinary''\<rparr>,
              w, [CloudinarySearch the_search]))
      \<and> (redisConnected w \<and> (redis_get e w IMAGES_CACHE_KEY = Inr None
                              \<or> redis_get e w IMAGES_CACHE_KEY = Inr (Some [])) \<longrightarrow>
           api_images e w =
             (\<lparr>status = 500, body = ErrorBody False ''Failed to fetch images from Cloudinary''\<rparr>,
              w, [RedisGet IMAGES_CACHE_KEY, CloudinarySearch the_search])))"
proof -
  have "fst (fetchImagesFromCloudinary e) = Inl (Error ''Failed to fetch images from Cloudinary'')
      \<longleftrightarrow> (\<exists>err. fetch_try e = Inl err)"
    by (auto simp add: fetchImagesFromCloudinary_def split: sum.splits)
  then have iff: "fst (fetchImagesFromCloudinary e) = Inl (Error ''Failed to fetch images from Cloudinary'')
      \<longleftrightarrow> (\<exists>err. search_execute e the_search = Inl err)
          \<or> (\<exists>result. search_execute e the_search = Inr result \<and> unusable result)"
    by (simp only: fetch_try_fails_iff)
  have once: "snd (fetchImagesFromCloudinary e) = [CloudinarySearch the_search]"
    by (simp add: fetchImagesFromCloudinary_def)
  have "api_images e w =
      (\<lparr>status = 500, body = ErrorBody False ''Failed to fetch images from Cloudinary''\<rparr>,
       w, [CloudinarySearch the_search])"
    if "fst (fetchImagesFromCloudinary e) = Inl (Error ''Failed to fetch images from Cloudinary'')"
      and "\<not> redisConnected w"
    using that once
    by (cases "fetchImagesFromCloudinary e")
       (simp add: api_images_def fetch_and_cache_def res_status_json_def)
  moreover have "api_images e w =
      (\<lparr>status = 500, body = ErrorBody False ''Failed to fetch images from Cloudinary''\<rparr>,
       w, [RedisGet IMAGES_CACHE_KEY, CloudinarySearch the_search])"
    if "fst (fetchImagesFromCloudinary e) = Inl (Error ''Failed to fetch images from Cloudinary'')"
      and "redisConnected w"
      and "redis_get e w IMAGES_CACHE_KEY = Inr None \<or> redis_get e w IMAGES_CACHE_KEY = Inr (Some [])"
    using that once
    by (cases "fetchImagesFromCloudinary e")
       (auto simp add: api_images_def fetch_and_cache_def res_status_json_def)
  ultimately show ?thesis
    using iff once by blast
qed

theorem upstream_failure_is_500_witness:
  "search_execute failing_env the_search = Inl (Error ''ECONNREFUSED'')
   \<and> fetchImagesFromCloudinary failing_env =
        (Inl (Error ''Failed to fetch images from Cloudinary''), [CloudinarySearch the_search])
   \<and> redisConnected empty_world
   \<and> redis_get failing_env empty_world IMAGES_CACHE_KEY = Inr None
   \<and> api_images failing_env empty_world =
        (\<lparr>status = 500, body = ErrorBody False ''Failed to fetch images from Cloudinary''\<rparr>,
         empty_world, [RedisGet IMAGES_CACHE_KEY, CloudinarySearch the_search])"
proof -
  have h: "search_execute failing_env the_search = Inl (Error ''ECONNREFUSED'')"
    "redisConnected empty_world" "redis_get failing_env empty_world IMAGES_CACHE_KEY = Inr None"
    by (simp_all add: failing_env_def sample_env_def empty_world_def redis_get_def)
  from upstream_failure_is_500 [of failing_env empty_world] h
  have "fst (fetchImagesFromCloudinary failing_env) =
          Inl (Error ''Failed to fetch images from Cloudinary'')
        \<and> snd (fetchImagesFromCloudinary failing_env) = [CloudinarySearch the_search]
        \<and> api_images failing_env empty_world =
        (\<lparr>status = 500, body = ErrorBody False ''Failed to fetch images from Cloudinary''\<rparr>,
         empty_world, [RedisGet IMAGES_CACHE_KEY, CloudinarySearch the_search])"
    by blast
  with h show ?thesis
    by (cases "fetchImagesFromCloudinary failing_env") simp
qed

text \<open>
  The claim as stated has every malformed answer raise. An answer whose resource lacks its
  \<open>secure_url\<close> is not well formed, yet nothing reads into the missing field: the
  fetcher returns a descriptor whose \<open>original_url\<close> is undefined and the handler
  answers 200.
\<close>

theorem missing_original_url_counterexample:
  "search_execute partial_env the_search =
      Inr \<lparr>resources = Some [\<lparr>public_id = Some ''dog'', secure_url = None\<rparr>]\<rparr>
   \<and> \<not> well_formed the_search \<lparr>resources = Some [\<lparr>public_id = Some ''dog'', secure_url = None\<rparr>]\<rparr>
   \<and> api_images partial_env down_world =
      (\<lparr>status = 200, body = ImagesBody True False (JArr
          [JObj [(''public_id'', JStr ''dog''), (''url'', JStr ''https://h/c_fill/dog''),
                 (''original_url'', JUndefined), (''title'', JStr ''dog'')]])\<rparr>,
       down_world, [CloudinarySearch the_search])"
  by (simp add: partial_env_def sample_defs handler_defs well_formed_def)

subsection \<open>The descriptors\<close>

text \<open>
  C6. For every answer of the media host that is well formed for the search (at most as
  many resources as asked for, each with identifier and original URL), the fetcher
  returns, after one call, a sequence of at most 20 descriptors, one per resource and in
  order; each is the record of the identifier, the display URL built from it, the original
  URL and the title, and the title is the identifier's part after its last slash (the
  whole identifier if it has none).
\<close>

theorem fetcher_descriptors:
  assumes "search_execute e the_search = Inr result" and "well_formed the_search result"
  shows "\<exists>rs images. resources result = Some rs
     \<and> fetchImagesFromCloudinary e = (Inr images, [CloudinarySearch the_search])
     \<and> length images \<le> 20
     \<and> list_all2 (\<lambda>r x. \<exists>pid u t pre.
           public_id r = Some pid \<and> secure_url r = Some u
           \<and> x = JObj [(''public_id'', JStr pid),
                       (''url'', JStr (cloudinary_url e pid
                          \<lparr>crop = ''fill'', width = 400, height = 400, quality = ''auto''\<rparr>)),
                       (''original_url'', JStr u),
                       (''title'', JStr t)]
           \<and> pid = pre @ t \<and> CHR ''/'' \<notin> set t \<and> (pre = [] \<or> last pre = CHR ''/'')) rs images"
proof -
  from assms(2) obtain rs where rs: "resources result = Some rs"
    and len: "length rs \<le> 20"
    and all: "list_all (\<lambda>r. public_id r \<noteq> None \<and> secure_url r \<noteq> None) rs"
    by (auto simp add: well_formed_def the_search_def split: option.splits)
  let ?P = "\<lambda>r x. \<exists>pid u t pre.
           public_id r = Some pid \<and> secure_url r = Some u
           \<and> x = JObj [(''public_id'', JStr pid),
                       (''url'', JStr (cloudinary_url e pid
                          \<lparr>crop = ''fill'', width = 400, height = 400, quality = ''auto''\<rparr>)),
                       (''original_url'', JStr u),
                       (''title'', JStr t)]
           \<and> pid = pre @ t \<and> CHR ''/'' \<notin> set t \<and> (pre = [] \<or> last pre = CHR ''/'')"
  have one: "\<exists>x. describe e r = Inr x \<and> ?P r x" if "r \<in> set rs" for r
  proof -
    from that all obtain pid u where pu: "public_id r = Some pid" "secure_url r = Some u"
      by (auto simp add: list_all_iff)
    from last_split_str [of pid "CHR ''/''"] obtain pre where
      "pid = pre @ last (split_str CHR ''/'' pid)"
      "CHR ''/'' \<notin> set (last (split_str CHR ''/'' pid))"
      "pre = [] \<or> last pre = CHR ''/''"
      by blast
    with pu show ?thesis
      by (simp add: describe_def pop_def split_str_not_Nil) blast
  qed
  define images where "images = map (\<lambda>r. projr (describe e r)) rs"
  have "list_all2 (\<lambda>r x. describe e r = Inr x \<and> ?P r x) rs images"
    unfolding images_def list_all2_map2 list_all2_same
  proof
    fix r assume "r \<in> set rs"
    from one [OF this] obtain x where "describe e r = Inr x" "?P r x"
      by blast
    then show "describe e r = Inr (projr (describe e r)) \<and> ?P r (projr (describe e r))"
      by simp
  qed
  then have im: "list_all2 (\<lambda>r x. describe e r = Inr x) rs images" and p: "list_all2 ?P rs images"
    by (auto elim: list_all2_mono)
  then have "map_throw (describe e) rs = Inr images"
    by (simp add: map_throw_Inr_iff)
  with assms(1) rs have "fetchImagesFromCloudinary e = (Inr images, [CloudinarySearch the_search])"
    by (simp add: fetchImagesFromCloudinary_def fetch_try_def)
  moreover from im len have "length images \<le> 20"
    by (auto dest: list_all2_lengthD)
  ultimately show ?thesis
    using rs p by (intro exI [of _ rs] exI [of _ images]) simp
qed

theorem fetcher_descriptors_witness:
  "search_execute sample_env the_search = Inr \<lparr>resources = Some sample_resources\<rparr>
   \<and> well_formed the_search \<lparr>resources = Some sample_resources\<rparr>
   \<and> fetchImagesFromCloudinary sample_env = (Inr sample_snapshot, [CloudinarySearch the_search])
   \<and> length sample_snapshot \<le> 20"
proof -
  have h1: "search_execute sample_env the_search = Inr \<lparr>resources = Some sample_resources\<rparr>"
    by (simp add: sample_env_def the_search_def sample_resources_def)
  have h2: "well_formed the_search \<lparr>resources = Some sample_resources\<rparr>"
    by (simp add: well_formed_def the_search_def sample_resources_def)
  from fetcher_descriptors [OF h1 h2] obtain images where
    "fetchImagesFromCloudinary sample_env = (Inr images, [CloudinarySearch the_search])"
    "length images \<le> 20"
    by blast
  with fetch_sample have "length sample_snapshot \<le> 20"
    by simp
  with h1 h2 fetch_sample show ?thesis
    by blast
qed

section \<open>The round trip of a snapshot\<close>

lemma describe_is_descriptor: "describe e r = Inr x \<Longrightarrow> is_descriptor x"
  by (auto simp add: describe_def is_descriptor_def pop_def split_str_not_Nil
        split: option.splits)

lemma fetched_are_descriptors:
  assumes "fst (fetchImagesFromCloudinary e) = Inr images"
  shows "list_all is_descriptor images"
proof -
  from assms obtain rs where "map_throw (describe e) rs = Inr images"
    by (auto simp add: fetchImagesFromCloudinary_def fetch_try_def
          split: sum.splits option.splits)
  then have "list_all2 (\<lambda>r x. describe e r = Inr x) rs images"
    by (simp add: map_throw_Inr_iff)
  then show ?thesis
    by (induction rule: list_all2_induct) (auto dest: describe_is_descriptor)
qed

lemma get_prop_defined_props:
  "is_descriptor x \<Longrightarrow> get_prop (defined_props x) k = get_prop x k"
  by (auto simp add: is_descriptor_def)

lemma defined_props_id:
  "is_descriptor x \<Longrightarrow> get_prop x ''original_url'' \<noteq> JUndefined \<Longrightarrow> defined_props x = x"
  by (auto simp add: is_descriptor_def)

text \<open>
  C7. For every snapshot the fetcher produces, \<open>JSON.parse\<close> of its \<open>JSON.stringify\<close>
  is a snapshot of the same length whose descriptors read, property by property, as the
  original ones do; when every descriptor has its original URL it is the very same value.
  (A descriptor whose \<open>original_url\<close> is undefined comes back without that key, which
  reads as undefined again.)
\<close>

theorem snapshot_round_trip:
  assumes "fst (fetchImagesFromCloudinary e) = Inr images"
  shows "\<exists>images'. JSON_parse (JSON_stringify (JArr images)) = Some (JArr images')
     \<and> list_all2 (\<lambda>x y. \<forall>k. get_prop y k = get_prop x k) images images'
     \<and> (list_all (\<lambda>x. get_prop x ''original_url'' \<noteq> JUndefined) images \<longrightarrow> images' = images)"
proof -
  have d: "list_all is_descriptor images"
    by (rule fetched_are_descriptors [OF assms])
  then have "JSON_parse (JSON_stringify (JArr images)) = Some (JArr (map defined_props images))"
    by (rule parse_stringify_descriptors)
  moreover from d have "list_all2 (\<lambda>x y. \<forall>k. get_prop y k = get_prop x k)
      images (map defined_props images)"
    by (simp add: list_all2_map2 list_all2_same list_all_iff get_prop_defined_props)
  moreover from d have "list_all (\<lambda>x. get_prop x ''original_url'' \<noteq> JUndefined) images
      \<longrightarrow> map defined_props images = images"
    by (auto simp add: list_all_iff defined_props_id intro: map_idI)
  ultimately show ?thesis
    by blast
qed

theorem snapshot_round_trip_witness:
  "fst (fetchImagesFromCloudinary sample_env) = Inr sample_snapshot
   \<and> JSON_parse (JSON_stringify (JArr sample_snapshot)) = Some (JArr sample_snapshot)"
proof -
  have f: "fst (fetchImagesFromCloudinary sample_env) = Inr sample_snapshot"
    by (simp add: fetch_sample)
  have "list_all (\<lambda>x. get_prop x ''original_url'' \<noteq> JUndefined) sample_snapshot"
    by (simp add: sample_snapshot_def)
  with snapshot_round_trip [OF f] have
    "JSON_parse (JSON_stringify (JArr sample_snapshot)) = Some (JArr sample_snapshot)"
    by blast
  with f show ?thesis
    by (simp only: simp_thms)
qed

section \<open>Properties of the handlers\<close>

lemma sample_snapshot_descriptors: "list_all is_descriptor sample_snapshot"
  by (simp add: sample_snapshot_def is_descriptor_def)

lemma parse_sample_snapshot:
  "JSON_parse (JSON_stringify (JArr sample_snapshot)) = Some (JArr sample_snapshot)"
proof -
  have "map defined_props sample_snapshot = sample_snapshot"
    by (simp add: sample_snapshot_def)
  with parse_stringify_descriptors [OF sample_snapshot_descriptors] show ?thesis
    by (simp only:)
qed

lemma sample_faults:
  "get_fault sample_env = None" "setEx_fault sample_env = None" "del_fault sample_env = None"
  "\<not> connects_meanwhile sample_env"
  by (simp_all add: sample_env_def)

lemma miss_sample:
  "api_images sample_env empty_world =
     (\<lparr>status = 200, body = ImagesBody True False (JArr sample_snapshot)\<rparr>,
      empty_world\<lparr>store := (store empty_world)
        (IMAGES_CACHE_KEY \<mapsto> (JSON_stringify (JArr sample_snapshot), 3700))\<rparr>,
      [RedisGet IMAGES_CACHE_KEY, CloudinarySearch the_search,
       RedisSetEx IMAGES_CACHE_KEY 3600 (JSON_stringify (JArr sample_snapshot))])"
  by (simp add: api_images_def fetch_and_cache_def fetch_sample redis_get_def redis_setEx_def
        res_json_def sample_faults back_from_fetch_def empty_world_def CACHE_TTL_def
        del: JSON_stringify.simps)

lemma cached_hit_sample:
  "api_images sample_env cached_world =
     (\<lparr>status = 200, body = ImagesBody True True (JArr sample_snapshot)\<rparr>,
      cached_world, [RedisGet IMAGES_CACHE_KEY])"
proof -
  have "JSON_stringify (JArr sample_snapshot) \<noteq> []"
    by simp
  then show ?thesis
    by (simp add: api_images_def redis_get_def res_json_def cached_world_def sample_env_def
          IMAGES_CACHE_KEY_def parse_sample_snapshot del: JSON_stringify.simps)
qed

subsection \<open>The health check\<close>

text \<open>
  C8. For every GET /health request the response is the object with the status field
  \<open>OK\<close> and the field for the cache (the source names it \<open>redis\<close>), whose value is
  \<open>connected\<close> when the flag is set and \<open>disconnected\<close> otherwise; the request changes
  nothing and touches no collaborator.
\<close>

theorem health_reports_flag:
  "handle e w GetHealth =
     (\<lparr>status = 200,
       body = HealthBody ''OK'' (if redisConnected w then ''connected'' else ''disconnected'')\<rparr>,
      w, [])"
  by (simp add: handler_defs)

theorem health_reports_flag_witness:
  "handle sample_env down_world GetHealth =
     (\<lparr>status = 200, body = HealthBody ''OK'' ''disconnected''\<rparr>, down_world, [])
   \<and> handle sample_env empty_world GetHealth =
     (\<lparr>status = 200, body = HealthBody ''OK'' ''connected''\<rparr>, empty_world, [])"
  using health_reports_flag [of sample_env down_world]
    health_reports_flag [of sample_env empty_world]
  by (simp add: down_world_def empty_world_def)

subsection \<open>Clearing the cache\<close>

text \<open>
  C4, as the code has it. For every POST /clear-cache request there are three outcomes.
  With the flag set the handler sends DEL for the fixed key; if Redis carries it out, the
  entry is gone and the response is \<open>{success: true, message}\<close>; if the command rejects,
  the \<open>catch\<close> answers 500 with the error's message and the entry stays. With the flag
  not set the response is 400 and Redis is not asked.
\<close>

theorem clear_cache_outcomes:
  "(redisConnected w \<and> del_fault e = None \<longrightarrow>
      api_clear_cache e w =
        (\<lparr>status = 200, body = MessageBody True ''Cache cleared''\<rparr>,
         w\<lparr>store := (store w)(IMAGES_CACHE_KEY := None)\<rparr>,
         [RedisDel IMAGES_CACHE_KEY]))
   \<and> (redisConnected w \<and> del_fault e = Some m \<longrightarrow>
      api_clear_cache e w =
        (\<lparr>status = 500, body = ErrorBody False m\<rparr>, w, [RedisDel IMAGES_CACHE_KEY]))
   \<and> (\<not> redisConnected w \<longrightarrow>
      api_clear_cache e w =
        (\<lparr>status = 400, body = MessageBody False ''Redis not connected''\<rparr>, w, []))"
  by (simp add: handler_defs)

theorem clear_cache_outcomes_witness:
  "redisConnected cached_world \<and> del_fault sample_env = None
   \<and> fst (api_clear_cache sample_env cached_world) =
       \<lparr>status = 200, body = MessageBody True ''Cache cleared''\<rparr>
   \<and> store (fst (snd (api_clear_cache sample_env cached_world))) IMAGES_CACHE_KEY = None
   \<and> \<not> redisConnected down_world
   \<and> fst (api_clear_cache sample_env down_world) =
       \<lparr>status = 400, body = MessageBody False ''Redis not connected''\<rparr>"
  using clear_cache_outcomes [of cached_world sample_env]
    clear_cache_outcomes [of down_world sample_env]
  by (simp add: sample_defs)

text \<open>
  The claim as stated allows two outcomes only. A connected server whose DEL rejects (the
  socket closed after the flag was set) gives a third: status 500, and the entry is still
  in the store.
\<close>

theorem clear_cache_rejected_counterexample:
  "redisConnected cached_world
   \<and> api_clear_cache (sample_env\<lparr>del_fault := Some ''Socket closed unexpectedly''\<rparr>) cached_world =
       (\<lparr>status = 500, body = ErrorBody False ''Socket closed unexpectedly''\<rparr>,
        cached_world, [RedisDel IMAGES_CACHE_KEY])
   \<and> store cached_world IMAGES_CACHE_KEY \<noteq> None"
  by (simp add: handler_defs sample_defs)

subsection \<open>Reading the gallery\<close>

text \<open>
  C1, as the code has it. For every GET /images request that arrives while the flag
  \<open>redisConnected\<close> is not set, the handler sends no GET and no DEL and invokes the
  fetcher once (one search of the media host). If the connection callback does not run
  while the fetcher is awaited, the handler sends no cache command at all; when the fetcher
  returns, the response is the successful one with \<open>cached: false\<close> and the fetched
  images; whatever the cache commands would do (any faults, any store, any clock), the
  response is the same; the state is unchanged; and a response other than 200 comes from
  a failure of the fetcher, never from the cache. If the callback runs meanwhile, the
  handler finds the flag set at its second reading and sends the SETEX for the fixed key:
  carried out, it stores the images and the response is still the successful one with
  \<open>cached: false\<close>; rejected, the \<open>catch\<close> answers 500 with the error of the cache.
\<close>

theorem images_without_cache:
  assumes "\<not> redisConnected w"
  shows "(\<forall>k. RedisGet k \<notin> set (snd (snd (api_images e w)))
              \<and> RedisDel k \<notin> set (snd (snd (api_images e w))))
    \<and> length (filter is_search (snd (snd (api_images e w)))) = 1
    \<and> (\<not> connects_meanwhile e \<longrightarrow>
         (\<forall>images. fst (fetchImagesFromCloudinary e) = Inr images \<longrightarrow>
            api_images e w =
              (\<lparr>status = 200, body = ImagesBody True False (JArr images)\<rparr>, w,
               [CloudinarySearch the_search]))
         \<and> snd (api_images e w) = (w, [CloudinarySearch the_search])
         \<and> (\<forall>g s d st t.
               fst (api_images (e\<lparr>get_fault := g, setEx_fault := s, del_fault := d\<rparr>)
                      (w\<lparr>store := st, now := t\<rparr>)) = fst (api_images e w))
         \<and> (status (fst (api_images e w)) \<noteq> 200 \<longrightarrow> (\<exists>err. fetch_try e = Inl err)))
    \<and> (connects_meanwhile e \<longrightarrow>
         (\<forall>images. fst (fetchImagesFromCloudinary e) = Inr images \<longrightarrow>
            (setEx_fault e = None \<longrightarrow>
               api_images e w =
                 (\<lparr>status = 200, body = ImagesBody True False (JArr images)\<rparr>,
                  (on_connect w)\<lparr>store := (store w)
                     (IMAGES_CACHE_KEY \<mapsto> (JSON_stringify (JArr images), now w + 3600))\<rparr>,
                  [CloudinarySearch the_search,
                   RedisSetEx IMAGES_CACHE_KEY 3600 (JSON_stringify (JArr images))]))
            \<and> (\<forall>m. setEx_fault e = Some m \<longrightarrow>
               api_images e w =
                 (\<lparr>status = 500, body = ErrorBody False m\<rparr>, on_connect w,
                  [CloudinarySearch the_search,
                   RedisSetEx IMAGES_CACHE_KEY 3600 (JSON_stringify (JArr images))]))))"
proof -
  have a: "(\<forall>k. RedisGet k \<notin> set (snd (snd (api_images e w)))
              \<and> RedisDel k \<notin> set (snd (snd (api_images e w))))
    \<and> length (filter is_search (snd (snd (api_images e w)))) = 1"
    using assms
    by (auto simp add: handler_defs split: sum.splits prod.splits option.splits)
  have b: "(\<forall>images. fst (fetchImagesFromCloudinary e) = Inr images \<longrightarrow>
            api_images e w =
              (\<lparr>status = 200, body = ImagesBody True False (JArr images)\<rparr>, w,
               [CloudinarySearch the_search]))
         \<and> snd (api_images e w) = (w, [CloudinarySearch the_search])
         \<and> (\<forall>g s d st t.
               fst (api_images (e\<lparr>get_fault := g, setEx_fault := s, del_fault := d\<rparr>)
                      (w\<lparr>store := st, now := t\<rparr>)) = fst (api_images e w))
         \<and> (status (fst (api_images e w)) \<noteq> 200 \<longrightarrow> (\<exists>err. fetch_try e = Inl err))"
    if "\<not> connects_meanwhile e"
    using assms that
    by (auto simp add: handler_defs fetch_try_faults split: sum.splits prod.splits)
  have c: "\<forall>images. fst (fetchImagesFromCloudinary e) = Inr images \<longrightarrow>
            (setEx_fault e = None \<longrightarrow>
               api_images e w =
                 (\<lparr>status = 200, body = ImagesBody True False (JArr images)\<rparr>,
                  (on_connect w)\<lparr>store := (store w)
                     (IMAGES_CACHE_KEY \<mapsto> (JSON_stringify (JArr images), now w + 3600))\<rparr>,
                  [CloudinarySearch the_search,
                   RedisSetEx IMAGES_CACHE_KEY 3600 (JSON_stringify (JArr images))]))
            \<and> (\<forall>m. setEx_fault e = Some m \<longrightarrow>
               api_images e w =
                 (\<lparr>status = 500, body = ErrorBody False m\<rparr>, on_connect w,
                  [CloudinarySearch the_search,
                   RedisSetEx IMAGES_CACHE_KEY 3600 (JSON_stringify (JArr images))]))"
    if "connects_meanwhile e"
    using assms that
    by (auto simp add: handler_defs CACHE_TTL_def split: sum.splits prod.splits
          simp del: JSON_stringify.simps)
  from a b c show ?thesis
    by blast
qed

theorem images_without_cache_witness:
  "\<not> redisConnected down_world
   \<and> \<not> connects_meanwhile sample_env
   \<and> api_images (sample_env\<lparr>get_fault := Some ''Socket closed unexpectedly'',
         setEx_fault := Some ''Socket closed unexpectedly'',
         del_fault := Some ''Socket closed unexpectedly''\<rparr>) down_world =
     (\<lparr>status = 200, body = ImagesBody True False (JArr sample_snapshot)\<rparr>,
      down_world, [CloudinarySearch the_search])"
  using images_without_cache [of down_world "sample_env\<lparr>get_fault := Some ''Socket closed unexpectedly'',
         setEx_fault := Some ''Socket closed unexpectedly'',
         del_fault := Some ''Socket closed unexpectedly''\<rparr>"]
  by (simp add: sample_defs fetchImagesFromCloudinary_def sample_snapshot_def)

text \<open>
  The claim as stated has the handler skip the cache entirely and never fail because of
  it. A request arrives with the flag unset; the connection callback runs while the
  fetcher is awaited; the handler reads the flag again, sends the SETEX, and the command
  rejects: the response is 500 with the error of the cache.
\<close>

theorem images_without_cache_counterexample:
  "\<not> redisConnected down_world
   \<and> api_images (sample_env\<lparr>setEx_fault := Some ''Socket closed unexpectedly'',
         connects_meanwhile := True\<rparr>) down_world =
     (\<lparr>status = 500, body = ErrorBody False ''Socket closed unexpectedly''\<rparr>,
      on_connect down_world,
      [CloudinarySearch the_search,
       RedisSetEx IMAGES_CACHE_KEY 3600 (JSON_stringify (JArr sample_snapshot))])"
  by (simp add: sample_defs handler_defs sample_snapshot_def)

text \<open>
  C2. For every GET /images request made while the server is connected, the GET is
  carried out and the fixed key holds an unexpired text: if the text deserializes, to
  \<open>data\<close>, the response is \<open>{success: true, cached: true, data}\<close>, the only effect is
  that GET, and the fetcher is not invoked. The text that a miss stored, the serialization
  of a snapshot, always deserializes: to that snapshot, less the properties that are
  undefined.
\<close>

theorem images_cache_hit:
  assumes "redisConnected w" and "get_fault e = None"
    and "store w IMAGES_CACHE_KEY = Some (text, expires)" and "now w < expires"
  shows "(\<forall>data. JSON_parse text = Some data \<longrightarrow>
            api_images e w =
              (\<lparr>status = 200, body = ImagesBody True True data\<rparr>, w, [RedisGet IMAGES_CACHE_KEY])
            \<and> \<not> list_ex is_search (snd (snd (api_images e w))))
     \<and> (\<forall>images. list_all is_descriptor images \<and> text = JSON_stringify (JArr images) \<longrightarrow>
            api_images e w =
              (\<lparr>status = 200, body = ImagesBody True True (JArr (map defined_props images))\<rparr>,
               w, [RedisGet IMAGES_CACHE_KEY]))"
proof -
  have hit: "api_images e w =
      (\<lparr>status = 200, body = ImagesBody True True data\<rparr>, w, [RedisGet IMAGES_CACHE_KEY])"
    if "JSON_parse text = Some data" for data
  proof -
    from that have "text \<noteq> []"
      using JSON_parse_empty by auto
    with assms that show ?thesis
      by (simp add: handler_defs)
  qed
  have "JSON_parse (JSON_stringify (JArr images)) = Some (JArr (map defined_props images))"
    if "list_all is_descriptor images" for images
    using that by (rule parse_stringify_descriptors)
  with hit show ?thesis
    by (simp del: JSON_stringify.simps)
qed

theorem images_cache_hit_witness:
  "redisConnected cached_world \<and> get_fault sample_env = None
   \<and> store cached_world IMAGES_CACHE_KEY = Some (JSON_stringify (JArr sample_snapshot), 3700)
   \<and> now cached_world < 3700
   \<and> JSON_parse (JSON_stringify (JArr sample_snapshot)) = Some (JArr sample_snapshot)
   \<and> api_images sample_env cached_world =
     (\<lparr>status = 200, body = ImagesBody True True (JArr sample_snapshot)\<rparr>,
      cached_world, [RedisGet IMAGES_CACHE_KEY])"
proof -
  have h: "redisConnected cached_world" "get_fault sample_env = None"
    "store cached_world IMAGES_CACHE_KEY = Some (JSON_stringify (JArr sample_snapshot), 3700)"
    "now cached_world < 3700"
    by (simp_all add: cached_world_def sample_env_def IMAGES_CACHE_KEY_def
          del: JSON_stringify.simps)
  from images_cache_hit [OF h] parse_sample_snapshot
  have "api_images sample_env cached_world =
     (\<lparr>status = 200, body = ImagesBody True True (JArr sample_snapshot)\<rparr>,
      cached_world, [RedisGet IMAGES_CACHE_KEY])"
    by blast
  with h parse_sample_snapshot show ?thesis
    by (simp only: simp_thms)
qed

text \<open>
  C3. For every GET /images request made while the server is connected and the fixed key
  holds no unexpired value, with the fetcher returning \<open>images\<close> and the cache commands
  carried out: the fetcher is invoked exactly once, its serialized result is stored under
  the fixed key to expire 3600 seconds from now, and the response is
  \<open>{success: true, cached: false, data: images}\<close>.
\<close>

theorem images_cache_miss:
  assumes "redisConnected w" and "get_fault e = None" and "setEx_fault e = None"
    and "\<forall>v expires. store w IMAGES_CACHE_KEY = Some (v, expires) \<longrightarrow> expires \<le> now w"
    and "fst (fetchImagesFromCloudinary e) = Inr images"
  shows "api_images e w =
     (\<lparr>status = 200, body = ImagesBody True False (JArr images)\<rparr>,
      w\<lparr>store := (store w)(IMAGES_CACHE_KEY \<mapsto> (JSON_stringify (JArr images), now w + 3600))\<rparr>,
      [RedisGet IMAGES_CACHE_KEY, CloudinarySearch the_search,
       RedisSetEx IMAGES_CACHE_KEY 3600 (JSON_stringify (JArr images))])
     \<and> length (filter is_search (snd (snd (api_images e w)))) = 1"
  using assms
  by (auto simp add: handler_defs CACHE_TTL_def split: sum.splits prod.splits option.splits)

theorem images_cache_miss_witness:
  "redisConnected empty_world \<and> get_fault sample_env = None \<and> setEx_fault sample_env = None
   \<and> store empty_world IMAGES_CACHE_KEY = None
   \<and> fst (fetchImagesFromCloudinary sample_env) = Inr sample_snapshot
   \<and> fst (api_images sample_env empty_world) =
        \<lparr>status = 200, body = ImagesBody True False (JArr sample_snapshot)\<rparr>
   \<and> store (fst (snd (api_images sample_env empty_world))) IMAGES_CACHE_KEY =
        Some (JSON_stringify (JArr sample_snapshot), 3700)
   \<and> length (filter is_search (snd (snd (api_images sample_env empty_world)))) = 1"
proof -
  have h: "redisConnected empty_world" "get_fault sample_env = None" "setEx_fault sample_env = None"
    "\<forall>v expires. store empty_world IMAGES_CACHE_KEY = Some (v, expires) \<longrightarrow> expires \<le> now empty_world"
    by (simp_all add: empty_world_def sample_faults)
  have f: "fst (fetchImagesFromCloudinary sample_env) = Inr sample_snapshot"
    by (simp add: fetch_sample)
  from images_cache_miss [OF h f] h f show ?thesis
    by (simp add: empty_world_def del: JSON_stringify.simps)
qed

subsection \<open>The one key\<close>

text \<open>
  C9. Whatever the request (and at shutdown), every cache command the program sends
  addresses the key \<open>cloudinary:images:all\<close>, every write is a SETEX with expiry 3600
  seconds, and the store is unchanged at every other key.
\<close>

theorem one_key_one_ttl:
  "list_all on_fixed_key (snd (snd (handle e w rq)))
   \<and> list_all on_fixed_key (snd (on_sigint w))
   \<and> (\<forall>k. k \<noteq> ''cloudinary:images:all'' \<longrightarrow> store (fst (snd (handle e w rq))) k = store w k)"
  by (cases rq)
     (auto simp add: handler_defs on_sigint_def IMAGES_CACHE_KEY_def CACHE_TTL_def
           split: sum.splits prod.splits option.splits)

theorem one_key_one_ttl_witness:
  "snd (snd (handle sample_env empty_world GetImages)) =
     [RedisGet ''cloudinary:images:all'', CloudinarySearch the_search,
      RedisSetEx ''cloudinary:images:all'' 3600 (JSON_stringify (JArr sample_snapshot))]
   \<and> list_all on_fixed_key (snd (snd (handle sample_env empty_world GetImages)))
   \<and> store (fst (snd (handle sample_env empty_world GetImages))) ''other'' = None"
proof -
  have m: "handle sample_env empty_world GetImages =
     (\<lparr>status = 200, body = ImagesBody True False (JArr sample_snapshot)\<rparr>,
      empty_world\<lparr>store := (store empty_world)
        (IMAGES_CACHE_KEY \<mapsto> (JSON_stringify (JArr sample_snapshot), 3700))\<rparr>,
      [RedisGet IMAGES_CACHE_KEY, CloudinarySearch the_search,
       RedisSetEx IMAGES_CACHE_KEY 3600 (JSON_stringify (JArr sample_snapshot))])"
    by (simp add: miss_sample)
  from one_key_one_ttl [of sample_env empty_world GetImages] show ?thesis
    unfolding m by (simp add: IMAGES_CACHE_KEY_def empty_world_def del: JSON_stringify.simps)
qed

subsection \<open>What a cache hit leaves alone\<close>

text \<open>
  C10. For every GET /images request answered with \<open>cached: true\<close> the state after is the
  state before (the stored text and its expiry included) and the only effect is the GET of
  the fixed key. A SETEX is only sent by a GET /images request that is not answered from
  the cache, a DEL only by a clear request; and when a request changes the store, it is
  either that write of the fetched images or the removal by the clear request.
\<close>

theorem cache_hit_changes_nothing:
  "(\<forall>ok data. body (fst (api_images e w)) = ImagesBody ok True data \<longrightarrow>
       snd (api_images e w) = (w, [RedisGet IMAGES_CACHE_KEY]))
   \<and> ((\<exists>k ttl v. RedisSetEx k ttl v \<in> set (snd (snd (handle e w rq)))) \<longrightarrow>
        rq = GetImages \<and> (\<forall>ok data. body (fst (handle e w rq)) \<noteq> ImagesBody ok True data))
   \<and> ((\<exists>k. RedisDel k \<in> set (snd (snd (handle e w rq)))) \<longrightarrow> rq = PostClearCache)
   \<and> (store (fst (snd (handle e w rq))) \<noteq> store w \<longrightarrow>
        (rq = GetImages \<and>
          (\<exists>images. body (fst (handle e w rq)) = ImagesBody True False (JArr images) \<and>
             store (fst (snd (handle e w rq))) =
               (store w)(IMAGES_CACHE_KEY \<mapsto> (JSON_stringify (JArr images), now w + 3600))))
        \<or> (rq = PostClearCache \<and>
             store (fst (snd (handle e w rq))) = (store w)(IMAGES_CACHE_KEY := None)))"
  by (cases rq)
     (auto simp add: handler_defs CACHE_TTL_def
           split: sum.splits prod.splits option.splits if_splits)

theorem cache_hit_changes_nothing_witness:
  "body (fst (api_images sample_env cached_world)) = ImagesBody True True (JArr sample_snapshot)
   \<and> snd (api_images sample_env cached_world) = (cached_world, [RedisGet IMAGES_CACHE_KEY])
   \<and> store (fst (snd (api_images sample_env cached_world))) IMAGES_CACHE_KEY =
        Some (JSON_stringify (JArr sample_snapshot), 3700)"
proof -
  have b: "body (fst (api_images sample_env cached_world)) =
      ImagesBody True True (JArr sample_snapshot)"
    by (simp add: cached_hit_sample)
  with cache_hit_changes_nothing [of sample_env cached_world GetImages]
  have "snd (api_images sample_env cached_world) = (cached_world, [RedisGet IMAGES_CACHE_KEY])"
    by blast
  with b show ?thesis
    by (simp add: cached_world_def IMAGES_CACHE_KEY_def del: JSON_stringify.simps)
qed

end
